theory Spec2Isabelle
  imports Main "HOL-Library.AList" "HOL-Library.Multiset"
begin

unbundle bit_operations_syntax

section \<open>The note model of graphmodel/Model.py\<close>

text \<open>
  The module is Python 2: integers are unbounded (\<open>int\<close>), a plain \<open>dict\<close> and an
  \<open>OrderedDict\<close> are association lists whose order is the iteration order, and every
  exception the interpreter can raise in the modelled code is a value of \<open>py_error\<close>.
\<close>

datatype py_error = KeyError | TypeError | ValueError | IndexError

type_synonym 'v dict = "(int \<times> 'v) list"

text \<open>\<open>d[k]\<close>: a missing key raises \<open>KeyError\<close>.\<close>

definition getitem :: "'v dict \<Rightarrow> int \<Rightarrow> py_error + 'v" where
  "getitem d k = (case map_of d k of None \<Rightarrow> Inl KeyError | Some v \<Rightarrow> Inr v)"

text \<open>
  \<open>d[k] = v\<close>: an existing key keeps its place, a new key is entered last.
  (CPython 2 iterates a plain dict in an order of its own; the statements below that
  concern a plain dict hold for every order of its entries.)
\<close>

definition setitem :: "'v dict \<Rightarrow> int \<Rightarrow> 'v \<Rightarrow> 'v dict" where
  "setitem d k v = AList.update k v d"

subsection \<open>Module-level helpers\<close>

text \<open>
  The module defines the name \<open>is_chord\<close> twice (lines 7 and 11). Executing a \<open>def\<close>
  statement binds the name in the module namespace; the statements run in source order.
\<close>

datatype def_site = Def_is_chord_line7 | Def_is_chord_line11

definition module_defs :: "(string \<times> def_site) list" where
  "module_defs = [(''is_chord'', Def_is_chord_line7), (''is_chord'', Def_is_chord_line11)]"

definition exec_defs :: "(string \<times> def_site) list \<Rightarrow> (string \<rightharpoonup> def_site)" where
  "exec_defs ds = foldl (\<lambda>ns (name, d). ns(name \<mapsto> d)) Map.empty ds"

definition module_namespace :: "string \<rightharpoonup> def_site" where
  "module_namespace = exec_defs module_defs"

text \<open>\<open>def is_chord(notes): return len(notes) > 0\<close> (line 11).\<close>

definition is_chord :: "'a list \<Rightarrow> bool" where
  "is_chord notes = (length notes > 0)"

subsection \<open>Note\<close>

record Note =
  timeline_tick :: int
  wait_ticks :: int
  duration_ticks :: int
  previous_delta_ticks :: int
  next_delta_ticks :: int
  channel :: int
  pitch :: int
  velocity :: int
  note_context :: "int list"

text \<open>\<open>Note.__init__\<close>: both delta fields start at 0, the context is empty.\<close>

definition Note_init :: "int \<Rightarrow> int \<Rightarrow> int \<Rightarrow> int \<Rightarrow> int \<Rightarrow> int \<Rightarrow> Note" where
  "Note_init tick wait dur ch p v =
     \<lparr>timeline_tick = tick, wait_ticks = wait, duration_ticks = dur,
      previous_delta_ticks = 0, next_delta_ticks = 0,
      channel = ch, pitch = p, velocity = v, note_context = []\<rparr>"

text \<open>
  \<open>(self.duration_ticks << 20) | (self.channel << 15) | (self.pitch << 8) | self.velocity\<close>;
  \<open>|\<close> associates to the left.
\<close>

definition encode :: "Note \<Rightarrow> int" where
  "encode n = ((push_bit 20 (duration_ticks n) OR push_bit 15 (channel n))
                 OR push_bit 8 (pitch n)) OR velocity n"

definition Note_hash :: "Note \<Rightarrow> int" where
  "Note_hash n = encode n"

definition Note_eq :: "Note \<Rightarrow> Note \<Rightarrow> bool" where
  "Note_eq a b = (encode a = encode b)"

text \<open>The ranges the data model gives for channel, pitch and velocity.\<close>

definition in_ranges :: "Note \<Rightarrow> bool" where
  "in_ranges n = (0 \<le> channel n \<and> channel n < 32 \<and> 0 \<le> pitch n \<and> pitch n < 128
                  \<and> 0 \<le> velocity n \<and> velocity n < 256)"

definition same_identity :: "Note \<Rightarrow> Note \<Rightarrow> bool" where
  "same_identity a b = (duration_ticks a = duration_ticks b \<and> channel a = channel b
                         \<and> pitch a = pitch b \<and> velocity a = velocity b)"

subsection \<open>SoundEvent\<close>

text \<open>The field \<open>se_notes\<close> is the attribute \<open>self.notes\<close>, a tuple.\<close>

record SoundEvent =
  se_notes :: "Note list"

text \<open>
  \<open>SoundEvent.__init__\<close>: the tuple is filled from
  \<open>sorted(notes, key=lambda note: note.next_delta_ticks)\<close>, a stable sort.
\<close>

definition SoundEvent_init :: "Note list \<Rightarrow> SoundEvent" where
  "SoundEvent_init ns = \<lparr>se_notes = sort_key next_delta_ticks ns\<rparr>"

text \<open>\<open>self.notes[0]\<close> raises \<open>IndexError\<close> on the empty tuple.\<close>

definition SoundEvent_first :: "SoundEvent \<Rightarrow> py_error + Note" where
  "SoundEvent_first e = (case se_notes e of [] \<Rightarrow> Inl IndexError | n # _ \<Rightarrow> Inr n)"

definition shortest_note :: "SoundEvent \<Rightarrow> py_error + Note" where
  "shortest_note e = (case se_notes e of [] \<Rightarrow> Inl IndexError | n # _ \<Rightarrow> Inr n)"

subsection \<open>Frame\<close>

record Frame =
  max_size :: int
  sound_events :: "SoundEvent list"

definition Frame_init :: "int \<Rightarrow> SoundEvent list option \<Rightarrow> Frame" where
  "Frame_init m evs =
     \<lparr>max_size = m, sound_events = (case evs of None \<Rightarrow> [] | Some es \<Rightarrow> es)\<rparr>"

text \<open>\<open>self.sound_events += (sound_event,)\<close>: no bound is checked.\<close>

definition Frame_add :: "Frame \<Rightarrow> SoundEvent \<Rightarrow> Frame" where
  "Frame_add f e = f\<lparr>sound_events := sound_events f @ [e]\<rparr>"

definition Frame_sizeof :: "Frame \<Rightarrow> int" where
  "Frame_sizeof f = int (length (sound_events f))"

definition is_full :: "Frame \<Rightarrow> bool" where
  "is_full f = (Frame_sizeof f = max_size f)"

subsection \<open>OrganizedNotesTable\<close>

type_synonym cell = "Note dict"
type_synonym row = "cell dict"

record OrganizedNotesTable =
  table :: "row dict"
  channels :: "int list"
  channel_coding :: int

definition OrganizedNotesTable_init :: OrganizedNotesTable where
  "OrganizedNotesTable_init = \<lparr>table = [], channels = [], channel_coding = push_bit 16 0\<rparr>"

text \<open>\<open>1 << channel\<close> raises \<open>ValueError\<close> for a negative shift count.\<close>

definition shl1 :: "int \<Rightarrow> py_error + int" where
  "shl1 ch = (if ch < 0 then Inl ValueError else Inr (push_bit (nat ch) 1))"

text \<open>\<open>has_channel\<close> returns the integer \<open>self.channel_coding & (1 << channel)\<close>.\<close>

definition has_channel :: "OrganizedNotesTable \<Rightarrow> int \<Rightarrow> py_error + int" where
  "has_channel T ch =
     (case shl1 ch of Inl e \<Rightarrow> Inl e | Inr b \<Rightarrow> Inr (channel_coding T AND b))"

definition add_channel :: "OrganizedNotesTable \<Rightarrow> int \<Rightarrow> py_error + OrganizedNotesTable" where
  "add_channel T ch =
     (let T1 = T\<lparr>channels := channels T @ [ch]\<rparr>
      in case shl1 ch of Inl e \<Rightarrow> Inl e
         | Inr b \<Rightarrow> Inr (T1\<lparr>channel_coding := channel_coding T1 OR b\<rparr>))"

text \<open>\<open>if not self.has_channel(channel)\<close>: the integer 0 is the only false result.\<close>

definition add_channel_if_not_exists ::
  "OrganizedNotesTable \<Rightarrow> int \<Rightarrow> py_error + OrganizedNotesTable" where
  "add_channel_if_not_exists T ch =
     (case has_channel T ch of Inl e \<Rightarrow> Inl e
      | Inr r \<Rightarrow> if r = 0 then add_channel T ch else Inr T)"

definition add :: "OrganizedNotesTable \<Rightarrow> Note \<Rightarrow> py_error + OrganizedNotesTable" where
  "add T note =
     (let tick = timeline_tick note; ch = channel note; p = pitch note
      in (case add_channel_if_not_exists T ch of Inl e \<Rightarrow> Inl e
          | Inr T1 \<Rightarrow>
             (let tb1 = (if map_of (table T1) tick = None then setitem (table T1) tick []
                         else table T1)
              in (case getitem tb1 tick of Inl e \<Rightarrow> Inl e
                  | Inr r \<Rightarrow>
                     (let r1 = (if map_of r ch = None then setitem r ch [] else r)
                      in (case getitem r1 ch of Inl e \<Rightarrow> Inl e
                          | Inr c \<Rightarrow>
                             Inr (T1\<lparr>table :=
                                    setitem tb1 tick (setitem r1 ch (setitem c p note))\<rparr>)))))))"

text \<open>Adding a sequence of notes one after the other; the first exception ends the run.\<close>

fun add_all :: "OrganizedNotesTable \<Rightarrow> Note list \<Rightarrow> py_error + OrganizedNotesTable" where
  "add_all T [] = Inr T"
| "add_all T (n # ns) = (case add T n of Inl e \<Rightarrow> Inl e | Inr T1 \<Rightarrow> add_all T1 ns)"

text \<open>\<open>self.table[tick][channel][pitch]\<close>.\<close>

definition get_note :: "OrganizedNotesTable \<Rightarrow> int \<Rightarrow> int \<Rightarrow> int \<Rightarrow> py_error + Note" where
  "get_note T tick ch p =
     (case getitem (table T) tick of Inl e \<Rightarrow> Inl e
      | Inr r \<Rightarrow> (case getitem r ch of Inl e \<Rightarrow> Inl e | Inr c \<Rightarrow> getitem c p))"

text \<open>\<open>OrderedDict(sorted(self.table.items(), key=lambda key: key[0]))\<close>.\<close>

definition sort_table :: "OrganizedNotesTable \<Rightarrow> OrganizedNotesTable" where
  "sort_table T = T\<lparr>table := sort_key fst (table T)\<rparr>"

text \<open>
  \<open>for tick in self.table: return tick\<close>. On an empty table the loop body never runs
  and the function ends without a \<open>return\<close>: the call yields Python's \<open>None\<close>, here
  the \<open>None\<close> of \<open>int option\<close>. Nothing is raised on either path.
\<close>

definition first_tick :: "OrganizedNotesTable \<Rightarrow> py_error + int option" where
  "first_tick T = (case table T of [] \<Rightarrow> Inr None | (tick, _) # _ \<Rightarrow> Inr (Some tick))"

text \<open>The keys of the table in iteration order, as \<open>for tick in self.table\<close> yields them.\<close>

definition ticks :: "OrganizedNotesTable \<Rightarrow> int list" where
  "ticks T = map fst (table T)"

subsection \<open>update_delta_times\<close>

text \<open>Running a fallible action over a sequence, stopping at the first exception.\<close>

fun traverse :: "('a \<Rightarrow> py_error + 'b) \<Rightarrow> 'a list \<Rightarrow> py_error + 'b list" where
  "traverse f [] = Inr []"
| "traverse f (x # xs) =
     (case f x of Inl e \<Rightarrow> Inl e
      | Inr y \<Rightarrow> (case traverse f xs of Inl e \<Rightarrow> Inl e | Inr ys \<Rightarrow> Inr (y # ys)))"

text \<open>
  The two nested iterations \<open>for channel in row: for pitch in row[channel]\<close> visit every note
  of a row once; the body assigns to a field of the note object, which the model
  renders by putting the updated note back in its slot.
\<close>

definition for_each_note :: "(Note \<Rightarrow> py_error + Note) \<Rightarrow> row \<Rightarrow> py_error + row" where
  "for_each_note f r =
     traverse (\<lambda>(ch, c).
        case traverse (\<lambda>(p, n). case f n of Inl e \<Rightarrow> Inl e | Inr n1 \<Rightarrow> Inr (p, n1)) c of
          Inl e \<Rightarrow> Inl e
        | Inr c1 \<Rightarrow> Inr (ch, c1)) r"

text \<open>
  \<open>note.previous_delta_ticks = note.timeline_tick - previous_tick\<close>; subtracting
  \<open>None\<close> from an integer raises \<open>TypeError\<close>.
\<close>

definition set_previous_delta :: "int option \<Rightarrow> Note \<Rightarrow> py_error + Note" where
  "set_previous_delta previous_tick n =
     (case previous_tick of None \<Rightarrow> Inl TypeError
      | Some p \<Rightarrow> Inr (n\<lparr>previous_delta_ticks := timeline_tick n - p\<rparr>))"

text \<open>\<open>note.next_delta_ticks = tick - note.timeline_tick\<close>.\<close>

definition set_next_delta :: "int \<Rightarrow> Note \<Rightarrow> py_error + Note" where
  "set_next_delta tick n = Inr (n\<lparr>next_delta_ticks := tick - timeline_tick n\<rparr>)"

text \<open>
  One pass of the body of \<open>for tick in self.table\<close>. In \<open>self.table[previous_tick]\<close>
  the key \<open>None\<close> is never a key of the table, so it raises \<open>KeyError\<close>.
\<close>

definition delta_step :: "row dict \<Rightarrow> int option \<Rightarrow> int \<Rightarrow> py_error + row dict" where
  "delta_step tb previous_tick tick =
     (case getitem tb tick of Inl e \<Rightarrow> Inl e
      | Inr r \<Rightarrow>
         (case for_each_note (set_previous_delta previous_tick) r of Inl e \<Rightarrow> Inl e
          | Inr r1 \<Rightarrow>
             let tb1 = setitem tb tick r1
             in (case previous_tick of None \<Rightarrow> Inl KeyError
                 | Some p \<Rightarrow>
                    (case getitem tb1 p of Inl e \<Rightarrow> Inl e
                     | Inr pr \<Rightarrow>
                        (case for_each_note (set_next_delta tick) pr of Inl e \<Rightarrow> Inl e
                         | Inr pr1 \<Rightarrow> Inr (setitem tb1 p pr1))))))"

fun delta_loop :: "int list \<Rightarrow> int option \<Rightarrow> row dict \<Rightarrow> py_error + row dict" where
  "delta_loop [] previous_tick tb = Inr tb"
| "delta_loop (tick # rest) previous_tick tb =
     (case delta_step tb previous_tick tick of Inl e \<Rightarrow> Inl e
      | Inr tb1 \<Rightarrow> delta_loop rest (Some tick) tb1)"

definition update_delta_times :: "OrganizedNotesTable \<Rightarrow> py_error + OrganizedNotesTable" where
  "update_delta_times T =
     (case first_tick T of Inl e \<Rightarrow> Inl e
      | Inr previous_tick \<Rightarrow>
         (case delta_loop (ticks T) previous_tick (table T) of Inl e \<Rightarrow> Inl e
          | Inr tb \<Rightarrow> Inr (T\<lparr>table := tb\<rparr>)))"

subsection \<open>MusicalTranscript\<close>

record MusicalTranscript =
  notes_table :: OrganizedNotesTable
  tracks :: "SoundEvent list dict"

text \<open>\<open>for channel in self.notes_table.channels: self.tracks[channel] = []\<close>.\<close>

definition init_tracks :: "int list \<Rightarrow> SoundEvent list dict" where
  "init_tracks chs = foldl (\<lambda>tr ch. setitem tr ch []) [] chs"

text \<open>
  The body of \<open>for channel in table[tick]\<close>: the notes of the cell are collected in the
  cell's iteration order, and \<open>self.tracks[channel].append(sound_event)\<close> raises
  \<open>KeyError\<close> for a channel that has no track.
\<close>

definition append_event ::
  "SoundEvent list dict \<Rightarrow> int \<times> cell \<Rightarrow> py_error + SoundEvent list dict" where
  "append_event tr cc =
     (case getitem tr (fst cc) of Inl e \<Rightarrow> Inl e
      | Inr evs \<Rightarrow> Inr (setitem tr (fst cc) (evs @ [SoundEvent_init (map snd (snd cc))])))"

fun build_row :: "SoundEvent list dict \<Rightarrow> row \<Rightarrow> py_error + SoundEvent list dict" where
  "build_row tr [] = Inr tr"
| "build_row tr (cc # r) =
     (case append_event tr cc of Inl e \<Rightarrow> Inl e | Inr tr1 \<Rightarrow> build_row tr1 r)"

fun build_rows :: "SoundEvent list dict \<Rightarrow> row dict \<Rightarrow> py_error + SoundEvent list dict" where
  "build_rows tr [] = Inr tr"
| "build_rows tr ((tick, r) # tb) =
     (case build_row tr r of Inl e \<Rightarrow> Inl e | Inr tr1 \<Rightarrow> build_rows tr1 tb)"

definition build :: "OrganizedNotesTable \<Rightarrow> py_error + SoundEvent list dict" where
  "build T = build_rows (init_tracks (channels T)) (table T)"

definition MusicalTranscript_init :: "OrganizedNotesTable \<Rightarrow> py_error + MusicalTranscript" where
  "MusicalTranscript_init T =
     (case build T of Inl e \<Rightarrow> Inl e | Inr tr \<Rightarrow> Inr \<lparr>notes_table = T, tracks = tr\<rparr>)"

subsection \<open>Notions used to state the properties\<close>

text \<open>Applying a change to every note of a row, and the notes of a row as a list.\<close>

definition map_notes :: "(Note \<Rightarrow> Note) \<Rightarrow> row \<Rightarrow> row" where
  "map_notes g r = map (\<lambda>(ch, c). (ch, map (\<lambda>(p, n). (p, g n)) c)) r"

definition row_notes :: "row \<Rightarrow> Note list" where
  "row_notes r = concat (map (\<lambda>(ch, c). map snd c) r)"

text \<open>The two assignments of \<open>update_delta_times\<close>, and both gaps set at once.\<close>

definition prev_upd :: "int \<Rightarrow> Note \<Rightarrow> Note" where
  "prev_upd p n = n\<lparr>previous_delta_ticks := timeline_tick n - p\<rparr>"

definition next_upd :: "int \<Rightarrow> Note \<Rightarrow> Note" where
  "next_upd t n = n\<lparr>next_delta_ticks := t - timeline_tick n\<rparr>"

definition set_gaps :: "int \<Rightarrow> int \<Rightarrow> Note \<Rightarrow> Note" where
  "set_gaps a b n = n\<lparr>previous_delta_ticks := a, next_delta_ticks := b\<rparr>"

text \<open>
  The table the loop leaves behind once it stands at the row of tick \<open>p\<close>, whose notes
  already have their previous gap, with the rows \<open>tb\<close> still to visit.
\<close>

fun annot :: "int \<Rightarrow> row \<Rightarrow> row dict \<Rightarrow> row dict" where
  "annot p pr [] = [(p, pr)]"
| "annot p pr ((t, r) # tb) =
     (p, map_notes (next_upd t) pr) # annot t (map_notes (prev_upd p) r) tb"

text \<open>
  The gaps written row by row: the distance to the tick before (0 for the first row)
  and to the tick after (0 for the last row).
\<close>

fun expected :: "int option \<Rightarrow> row dict \<Rightarrow> row dict" where
  "expected prev [] = []"
| "expected prev ((t, r) # tb) =
     (t, map_notes (set_gaps (case prev of None \<Rightarrow> 0 | Some p \<Rightarrow> t - p)
                             (case tb of [] \<Rightarrow> 0 | (t1, _) # _ \<Rightarrow> t1 - t)) r)
     # expected (Some t) tb"

text \<open>
  What \<open>add\<close> keeps true of an index: every note sits in the row of its own tick and
  still has the next gap 0 of \<open>Note.__init__\<close>; the keys of the table and of each row
  are distinct, as in any dict; every channel of a row is in \<open>channels\<close>; and the bit
  mask \<open>channel_coding\<close> has exactly the bits of \<open>channels\<close>.
\<close>

definition row_at :: "int \<Rightarrow> row \<Rightarrow> bool" where
  "row_at t r = list_all (\<lambda>n. timeline_tick n = t) (row_notes r)"

definition row_fresh :: "row \<Rightarrow> bool" where
  "row_fresh r = list_all (\<lambda>n. next_delta_ticks n = 0) (row_notes r)"

definition notes_inv :: "row dict \<Rightarrow> bool" where
  "notes_inv tb = list_all (\<lambda>(t, r). row_at t r \<and> row_fresh r) tb"

definition row_struct :: "int list \<Rightarrow> row \<Rightarrow> bool" where
  "row_struct chs r = (distinct (map fst r) \<and> list_all (\<lambda>ch. ch \<in> set chs) (map fst r))"

definition struct_inv :: "int list \<Rightarrow> row dict \<Rightarrow> bool" where
  "struct_inv chs tb = (distinct (map fst tb) \<and> list_all (\<lambda>(t, r). row_struct chs r) tb)"

definition coding_inv :: "OrganizedNotesTable \<Rightarrow> bool" where
  "coding_inv T =
     (\<forall>ch. ch \<in> set (channels T) \<longleftrightarrow> 0 \<le> ch \<and> bit (channel_coding T) (nat ch))"

definition index_inv :: "OrganizedNotesTable \<Rightarrow> bool" where
  "index_inv T = (coding_inv T \<and> struct_inv (channels T) (table T) \<and> notes_inv (table T))"

text \<open>The row and the cell that \<open>add\<close> finds or creates.\<close>

definition slot_row :: "row dict \<Rightarrow> int \<Rightarrow> row" where
  "slot_row tb tick = (case map_of tb tick of None \<Rightarrow> [] | Some r \<Rightarrow> r)"

definition slot_cell :: "row \<Rightarrow> int \<Rightarrow> cell" where
  "slot_cell r ch = (case map_of r ch of None \<Rightarrow> [] | Some c \<Rightarrow> c)"

text \<open>Notes as a caller constructs them, one \<open>Note(...)\<close> call per tuple of arguments.\<close>

definition make_notes :: "(int \<times> int \<times> int \<times> int \<times> int \<times> int) list \<Rightarrow> Note list" where
  "make_notes args = map (\<lambda>(tick, wait, dur, ch, p, v). Note_init tick wait dur ch p v) args"

text \<open>The channels of every row, tick by tick.\<close>

definition row_channels :: "row dict \<Rightarrow> (int \<times> int list) list" where
  "row_channels tb = map (\<lambda>(t, r). (t, map fst r)) tb"

text \<open>
  The cells of one channel, tick by tick in the order of the table, and the sound event
  that \<open>__build__\<close> makes of a cell.
\<close>

definition buckets :: "row dict \<Rightarrow> int \<Rightarrow> (int \<times> cell) list" where
  "buckets tb ch =
     concat (map (\<lambda>(t, r). case map_of r ch of None \<Rightarrow> [] | Some c \<Rightarrow> [(t, c)]) tb)"

definition event_of :: "cell \<Rightarrow> SoundEvent" where
  "event_of c = SoundEvent_init (map snd c)"

subsection \<open>A worked example\<close>

text \<open>
  Three notes, entered out of order: a chord of two notes at tick 0 and a single note at
  tick 4, all on channel 0; the index they give, and the index after sorting and the
  delta pass. A second table has a channel at tick 4 that tick 0 lacks.
\<close>

definition example_args :: "(int \<times> int \<times> int \<times> int \<times> int \<times> int) list" where
  "example_args = [(4, 0, 2, 0, 67, 100), (0, 0, 4, 0, 60, 100), (0, 0, 4, 0, 64, 100)]"

definition example_index :: OrganizedNotesTable where
  "example_index =
     \<lparr>table = [(4, [(0, [(67, Note_init 4 0 2 0 67 100)])]),
               (0, [(0, [(60, Note_init 0 0 4 0 60 100), (64, Note_init 0 0 4 0 64 100)])])],
      channels = [0], channel_coding = 1\<rparr>"

definition example_annotated :: OrganizedNotesTable where
  "example_annotated =
     \<lparr>table = [(0, [(0, [(60, set_gaps 0 4 (Note_init 0 0 4 0 60 100)),
                         (64, set_gaps 0 4 (Note_init 0 0 4 0 64 100))])]),
               (4, [(0, [(67, set_gaps 4 0 (Note_init 4 0 2 0 67 100))])])],
      channels = [0], channel_coding = 1\<rparr>"

definition example_two_channels :: OrganizedNotesTable where
  "example_two_channels =
     \<lparr>table = [(0, [(0, [(60, Note_init 0 0 4 0 60 100)])]),
               (4, [(0, [(67, Note_init 4 0 2 0 67 100)]), (1, [(50, Note_init 4 0 2 1 50 90)])])],
      channels = [0, 1], channel_coding = 3\<rparr>"

section \<open>Identity of notes\<close>

lemma or_low_add:
  fixes v x :: int
  assumes "0 \<le> v" "v < 2 ^ n"
  shows "push_bit n x OR v = x * 2 ^ n + v"
proof -
  have "push_bit n x OR v = concat_bit n v x"
    using assms by (simp add: concat_bit_def take_bit_int_eq_self or.commute)
  also have "\<dots> = take_bit n v + push_bit n x" by (rule concat_bit_eq)
  finally show ?thesis using assms by (simp add: take_bit_int_eq_self push_bit_eq_mult)
qed

lemma encode_sum:
  assumes "in_ranges n"
  shows "encode n = duration_ticks n * 2 ^ 20 + channel n * 2 ^ 15 + pitch n * 2 ^ 8 + velocity n"
proof -
  let ?d = "duration_ticks n" and ?c = "channel n" and ?p = "pitch n" and ?v = "velocity n"
  have r: "0 \<le> ?c" "?c < 2 ^ 5" "0 \<le> ?p" "?p < 2 ^ 7" "0 \<le> ?v" "?v < 2 ^ 8"
    using assms by (simp_all add: in_ranges_def)
  have a: "push_bit 20 ?d OR push_bit 15 ?c = push_bit 15 (push_bit 5 ?d OR ?c)"
    by (simp add: push_bit_or push_bit_push_bit)
  have b: "push_bit 15 (push_bit 5 ?d OR ?c) OR push_bit 8 ?p
             = push_bit 8 (push_bit 7 (push_bit 5 ?d OR ?c) OR ?p)"
    by (simp add: push_bit_or push_bit_push_bit)
  have "encode n = push_bit 8 (push_bit 7 (push_bit 5 ?d OR ?c) OR ?p) OR ?v"
    unfolding encode_def a b ..
  also have "\<dots> = (push_bit 7 (push_bit 5 ?d OR ?c) OR ?p) * 2 ^ 8 + ?v"
    using r by (intro or_low_add)
  also have "push_bit 7 (push_bit 5 ?d OR ?c) OR ?p = (push_bit 5 ?d OR ?c) * 2 ^ 7 + ?p"
    using r by (intro or_low_add)
  also have "push_bit 5 ?d OR ?c = ?d * 2 ^ 5 + ?c"
    using r by (intro or_low_add)
  finally show ?thesis by (simp add: algebra_simps)
qed

lemma digit_unique:
  fixes x y a b m :: int
  assumes "x * m + a = y * m + b" "0 \<le> a" "a < m" "0 \<le> b" "b < m"
  shows "x = y \<and> a = b"
proof -
  have "a = (x * m + a) mod m" using assms(2,3) by simp
  also have "\<dots> = (y * m + b) mod m" by (simp only: assms(1))
  also have "\<dots> = b" using assms(4,5) by simp
  finally have ab: "a = b" .
  have "x = (x * m + a) div m" using assms(2,3) by simp
  also have "\<dots> = (y * m + b) div m" by (simp only: assms(1))
  also have "\<dots> = y" using assms(4,5) by simp
  finally have "x = y" .
  with ab show ?thesis by simp
qed

lemma packed_unique:
  fixes d c p v d' c' p' v' :: int
  assumes e: "d * 2 ^ 20 + c * 2 ^ 15 + p * 2 ^ 8 + v = d' * 2 ^ 20 + c' * 2 ^ 15 + p' * 2 ^ 8 + v'"
    and r: "0 \<le> c" "c < 32" "0 \<le> p" "p < 128" "0 \<le> v" "v < 256"
    and r': "0 \<le> c'" "c' < 32" "0 \<le> p'" "p' < 128" "0 \<le> v'" "v' < 256"
  shows "d = d' \<and> c = c' \<and> p = p' \<and> v = v'"
proof -
  have "(d * 4096 + c * 128 + p) * 256 + v = (d' * 4096 + c' * 128 + p') * 256 + v'"
    using e by simp
  from digit_unique [OF this] r r'
  have v: "v = v'" and 1: "(d * 32 + c) * 128 + p = (d' * 32 + c') * 128 + p'" by simp_all
  from digit_unique [OF 1] r r'
  have p: "p = p'" and 2: "d * 32 + c = d' * 32 + c'" by simp_all
  from digit_unique [OF 2] r r' have "d = d' \<and> c = c'" by simp
  with v p show ?thesis by simp
qed

lemma encode_inj:
  assumes "in_ranges a" "in_ranges b" "encode a = encode b"
  shows "same_identity a b"
proof -
  have "duration_ticks a * 2 ^ 20 + channel a * 2 ^ 15 + pitch a * 2 ^ 8 + velocity a
        = duration_ticks b * 2 ^ 20 + channel b * 2 ^ 15 + pitch b * 2 ^ 8 + velocity b"
    using assms by (simp only: encode_sum)
  from packed_unique [OF this] assms(1,2) show ?thesis
    by (simp add: in_ranges_def same_identity_def)
qed

text \<open>
  Claim C2, as the code has it. Two notes that agree on duration, channel, pitch and
  velocity are equal under \<open>__eq__\<close> and have the same \<open>__hash__\<close>, whatever their
  timeline tick, wait ticks and delta fields are. Conversely, when channel, pitch and
  velocity of both notes lie in the ranges of the data model (0 to 31, 0 to 127, 0 to 255),
  notes that are equal and hash alike agree on all four fields; the duration may be any
  integer.
\<close>

theorem Note_identity:
  "(same_identity a b \<longrightarrow> Note_eq a b \<and> Note_hash a = Note_hash b)
   \<and> (in_ranges a \<and> in_ranges b \<longrightarrow>
        ((Note_eq a b \<and> Note_hash a = Note_hash b) \<longleftrightarrow> same_identity a b))"
proof -
  have 1: "same_identity a b \<Longrightarrow> encode a = encode b"
    by (simp add: same_identity_def encode_def)
  have 2: "in_ranges a \<Longrightarrow> in_ranges b \<Longrightarrow> encode a = encode b \<Longrightarrow> same_identity a b"
    by (rule encode_inj)
  from 1 2 show ?thesis by (auto simp: Note_eq_def Note_hash_def)
qed

theorem Note_identity_witness:
  "same_identity (Note_init 0 0 4 0 60 100) (Note_init 4 7 4 0 60 100)
   \<and> in_ranges (Note_init 0 0 4 0 60 100) \<and> in_ranges (Note_init 4 7 4 0 60 100)
   \<and> timeline_tick (Note_init 0 0 4 0 60 100) \<noteq> timeline_tick (Note_init 4 7 4 0 60 100)
   \<and> Note_eq (Note_init 0 0 4 0 60 100) (Note_init 4 7 4 0 60 100)
   \<and> Note_hash (Note_init 0 0 4 0 60 100) = Note_hash (Note_init 4 7 4 0 60 100)"
  using Note_identity [of "Note_init 0 0 4 0 60 100" "Note_init 4 7 4 0 60 100"]
  by (simp add: same_identity_def in_ranges_def Note_init_def)

text \<open>
  Without the ranges the converse fails: the constructor accepts any integers, and
  channel 32 with duration 0 packs to the same integer as channel 0 with duration 1.
\<close>

theorem Note_identity_counterexample:
  "Note_eq (Note_init 0 0 0 32 0 0) (Note_init 0 0 1 0 0 0)
   \<and> Note_hash (Note_init 0 0 0 32 0 0) = Note_hash (Note_init 0 0 1 0 0 0)
   \<and> \<not> same_identity (Note_init 0 0 0 32 0 0) (Note_init 0 0 1 0 0 0)"
  by (simp add: Note_eq_def Note_hash_def encode_def same_identity_def Note_init_def)

text \<open>
  Claim C5, as the code has it. For a note whose channel, pitch and velocity lie in the
  ranges of the data model, the encoding is
  \<open>duration_ticks * 2^20 + channel * 2^15 + pitch * 2^8 + velocity\<close>; it lies in
  \<open>0 \<le> encoding < 2^32\<close> when, in addition, the duration fits its 12 bits
  (\<open>0 \<le> duration_ticks < 2^12\<close>).
\<close>

theorem encode_packed:
  assumes "in_ranges n"
  shows "encode n = duration_ticks n * 2 ^ 20 + channel n * 2 ^ 15 + pitch n * 2 ^ 8 + velocity n
         \<and> (0 \<le> duration_ticks n \<and> duration_ticks n < 2 ^ 12 \<longrightarrow> 0 \<le> encode n \<and> encode n < 2 ^ 32)"
proof -
  have s: "encode n = duration_ticks n * 2 ^ 20 + channel n * 2 ^ 15 + pitch n * 2 ^ 8 + velocity n"
    using assms by (rule encode_sum)
  have "0 \<le> encode n \<and> encode n < 2 ^ 32"
    if "0 \<le> duration_ticks n" "duration_ticks n < 2 ^ 12"
    using that assms unfolding s in_ranges_def by simp
  with s show ?thesis by blast
qed

theorem encode_packed_witness:
  "in_ranges (Note_init 0 0 4 0 60 100) \<and> encode (Note_init 0 0 4 0 60 100) = 4209764
   \<and> 0 \<le> encode (Note_init 0 0 4 0 60 100) \<and> encode (Note_init 0 0 4 0 60 100) < 2 ^ 32"
  using encode_packed [of "Note_init 0 0 4 0 60 100"]
  by (simp add: in_ranges_def Note_init_def)

text \<open>
  A duration of 4096 ticks, with channel, pitch and velocity in range, already encodes
  to \<open>2^32\<close>: nothing masks the duration to 12 bits.
\<close>

theorem encode_packed_counterexample:
  "in_ranges (Note_init 0 0 4096 0 0 0) \<and> \<not> encode (Note_init 0 0 4096 0 0 0) < 2 ^ 32"
  by (simp add: in_ranges_def encode_def Note_init_def)

section \<open>Sound events\<close>

lemma sort_key_hd_min:
  assumes "ns \<noteq> []"
  shows "\<exists>n rest. sort_key f ns = n # rest \<and> n \<in> set ns \<and> (\<forall>m\<in>set ns. f n \<le> f m)"
proof -
  from assms have "sort_key f ns \<noteq> []" by (metis length_0_conv length_sort)
  then obtain n rest where e: "sort_key f ns = n # rest" by (cases "sort_key f ns") auto
  have s: "sorted (map f (sort_key f ns))" by (rule sorted_sort_key)
  have "set (n # rest) = set ns" using e by (metis set_sort)
  with s e show ?thesis by auto
qed

text \<open>
  Claim C8. The sound event built from a non-empty list of notes holds exactly those
  notes, in non-decreasing order of \<open>next_delta_ticks\<close>; \<open>first\<close> and
  \<open>shortest_note\<close> both return the same member, whose \<open>next_delta_ticks\<close> is minimal.
  The class assigns \<open>self.notes\<close> in \<open>__init__\<close> only: the reading methods are
  functions of the event and yield no changed event.
\<close>

theorem SoundEvent_sorted:
  assumes "ns \<noteq> []"
  shows "sorted (map next_delta_ticks (se_notes (SoundEvent_init ns)))
    \<and> mset (se_notes (SoundEvent_init ns)) = mset ns
    \<and> (\<exists>n. SoundEvent_first (SoundEvent_init ns) = Inr n
           \<and> shortest_note (SoundEvent_init ns) = Inr n
           \<and> n \<in> set ns \<and> (\<forall>m\<in>set ns. next_delta_ticks n \<le> next_delta_ticks m))"
proof -
  let ?s = "sort_key next_delta_ticks ns"
  from sort_key_hd_min [OF assms, of next_delta_ticks]
  obtain n rest where e: "?s = n # rest" and m: "n \<in> set ns"
    "\<forall>m\<in>set ns. next_delta_ticks n \<le> next_delta_ticks m" by blast
  have a: "sorted (map next_delta_ticks ?s)" by (rule sorted_sort_key)
  have b: "mset ?s = mset ns" by (rule mset_sort)
  have c: "SoundEvent_first (SoundEvent_init ns) = Inr n"
    "shortest_note (SoundEvent_init ns) = Inr n"
    using e by (simp_all add: SoundEvent_init_def SoundEvent_first_def shortest_note_def)
  have d: "se_notes (SoundEvent_init ns) = ?s" by (simp add: SoundEvent_init_def)
  show ?thesis unfolding d using a b c m by blast
qed

theorem SoundEvent_sorted_witness:
  "[(Note_init 0 0 4 0 60 100)\<lparr>next_delta_ticks := 4\<rparr>,
    (Note_init 0 0 2 0 64 100)\<lparr>next_delta_ticks := 2\<rparr>] \<noteq> []
   \<and> map next_delta_ticks (se_notes (SoundEvent_init
        [(Note_init 0 0 4 0 60 100)\<lparr>next_delta_ticks := 4\<rparr>,
         (Note_init 0 0 2 0 64 100)\<lparr>next_delta_ticks := 2\<rparr>])) = [2, 4]
   \<and> SoundEvent_first (SoundEvent_init
        [(Note_init 0 0 4 0 60 100)\<lparr>next_delta_ticks := 4\<rparr>,
         (Note_init 0 0 2 0 64 100)\<lparr>next_delta_ticks := 2\<rparr>])
       = Inr ((Note_init 0 0 2 0 64 100)\<lparr>next_delta_ticks := 2\<rparr>)"
  using SoundEvent_sorted [of "[(Note_init 0 0 4 0 60 100)\<lparr>next_delta_ticks := 4\<rparr>,
    (Note_init 0 0 2 0 64 100)\<lparr>next_delta_ticks := 2\<rparr>]"]
  by (simp add: SoundEvent_init_def SoundEvent_first_def Note_init_def)

section \<open>Frames\<close>

lemma sound_events_foldl_add:
  "sound_events (foldl Frame_add f es) = sound_events f @ es"
  by (induction es arbitrary: f) (simp_all add: Frame_add_def)

lemma max_size_foldl_add: "max_size (foldl Frame_add f es) = max_size f"
  by (induction es arbitrary: f) (simp_all add: Frame_add_def)

text \<open>
  Claim C7. \<open>is_full\<close> holds exactly when the number of sound events equals
  \<open>max_size\<close>. A frame created with \<open>max_size = 3\<close> and no events is full after a run
  of adds exactly when the run has three adds. \<open>add\<close> appends without a check, so adding
  to a full frame succeeds, the length exceeds \<open>max_size\<close> and the frame is no longer
  full.
\<close>

theorem Frame_fullness:
  "is_full f = (int (length (sound_events f)) = max_size f)
   \<and> (is_full (foldl Frame_add (Frame_init 3 None) es) \<longleftrightarrow> length es = 3)
   \<and> sound_events (Frame_add f e) = sound_events f @ [e]
   \<and> max_size (Frame_add f e) = max_size f
   \<and> (is_full f \<longrightarrow> \<not> is_full (Frame_add f e)
                    \<and> max_size f < int (length (sound_events (Frame_add f e))))"
proof -
  have "is_full (foldl Frame_add (Frame_init 3 None) es) \<longleftrightarrow> length es = 3"
    by (simp add: is_full_def Frame_sizeof_def sound_events_foldl_add max_size_foldl_add
        Frame_init_def)
  then show ?thesis
    by (simp add: is_full_def Frame_sizeof_def Frame_add_def)
qed

theorem Frame_fullness_witness:
  "is_full (foldl Frame_add (Frame_init 3 None) [SoundEvent_init [], SoundEvent_init [], SoundEvent_init []])
   \<and> \<not> is_full (Frame_add (foldl Frame_add (Frame_init 3 None)
          [SoundEvent_init [], SoundEvent_init [], SoundEvent_init []]) (SoundEvent_init []))
   \<and> \<not> is_full (foldl Frame_add (Frame_init 3 None) [SoundEvent_init [], SoundEvent_init []])"
  using Frame_fullness [of "foldl Frame_add (Frame_init 3 None) [SoundEvent_init [], SoundEvent_init [], SoundEvent_init []]"
      "[SoundEvent_init [], SoundEvent_init [], SoundEvent_init []]" "SoundEvent_init []"]
    Frame_fullness [of "Frame_init 3 None" "[SoundEvent_init [], SoundEvent_init []]" "SoundEvent_init []"]
  by (simp add: is_full_def Frame_sizeof_def Frame_add_def Frame_init_def)

section \<open>The chord test\<close>

text \<open>
  Claim C10. \<open>is_chord\<close> holds exactly for the non-empty collections, so a group of one
  note counts as a chord; and after both \<open>def\<close> statements have run, the name
  \<open>is_chord\<close> is bound to the definition of line 11, not to that of line 7.
\<close>

theorem is_chord_nonempty:
  "is_chord ns = (ns \<noteq> []) \<and> is_chord [n]
   \<and> module_namespace ''is_chord'' = Some Def_is_chord_line11"
  by (simp add: is_chord_def module_namespace_def exec_defs_def module_defs_def)

theorem is_chord_nonempty_witness:
  "is_chord [Note_init 0 0 4 0 60 100] \<and> \<not> is_chord ([] :: Note list)"
  using is_chord_nonempty [of "[Note_init 0 0 4 0 60 100]" "Note_init 0 0 4 0 60 100"]
    is_chord_nonempty [of "[] :: Note list" "Note_init 0 0 4 0 60 100"]
  by simp

section \<open>Sorting and exact reads\<close>

text \<open>
  Claim C4. The keys of a dict are distinct; for such a table, \<open>sort\<close> leaves the ticks
  in strictly ascending order and keeps the entries; sorting twice equals sorting once;
  a table that is already in ascending order is left as it is; so is the empty table.
\<close>

theorem sort_table_sorted:
  assumes "distinct (ticks T)"
  shows "sorted_wrt (<) (ticks (sort_table T))
    \<and> mset (table (sort_table T)) = mset (table T)
    \<and> sort_table (sort_table T) = sort_table T
    \<and> (sorted_wrt (<) (ticks T) \<longrightarrow> sort_table T = T)
    \<and> (table T = [] \<longrightarrow> sort_table T = T)"
proof -
  have s: "sorted (map fst (sort_key fst (table T)))" by (rule sorted_sort_key)
  have d: "distinct (map fst (sort_key fst (table T)))"
    using assms by (simp add: ticks_def distinct_map inj_on_def)
  have 1: "sorted_wrt (<) (ticks (sort_table T))"
    using s d by (simp add: strict_sorted_iff ticks_def sort_table_def)
  have i: "sort_key fst xs = xs" if "sorted (map fst xs)" for xs :: "row dict"
    using that by (rule sort_key_id_if_sorted)
  have 3: "sort_table (sort_table T) = sort_table T"
    using i [OF s] by (simp add: sort_table_def)
  have 4: "sort_table T = T" if "sorted_wrt (<) (ticks T)"
    using that i [of "table T"] by (simp add: strict_sorted_iff ticks_def sort_table_def)
  show ?thesis using 1 3 4 by (simp add: sort_table_def)
qed

text \<open>
  Claim C6, as the code has it. \<open>get_note\<close> raises exactly when the tick, or the channel
  in the row of the tick, or the pitch in the cell of the channel is missing, the
  exception is \<open>KeyError\<close>, and it returns the stored note when all three are present.
  \<open>first_tick\<close> raises nothing: on an empty table it returns \<open>None\<close>, otherwise the
  first key in iteration order, so that "no tick" (\<open>None\<close>) still differs from tick 0.
\<close>

theorem exact_reads:
  "(isl (get_note T tick ch p) \<longleftrightarrow>
      (tick \<notin> dom (map_of (table T))
       \<or> (\<exists>r. map_of (table T) tick = Some r \<and> ch \<notin> dom (map_of r))
       \<or> (\<exists>r c. map_of (table T) tick = Some r \<and> map_of r ch = Some c \<and> p \<notin> dom (map_of c))))
   \<and> (isl (get_note T tick ch p) \<longrightarrow> get_note T tick ch p = Inl KeyError)
   \<and> (\<forall>r c n. map_of (table T) tick = Some r \<and> map_of r ch = Some c \<and> map_of c p = Some n
         \<longrightarrow> get_note T tick ch p = Inr n)
   \<and> (table T = [] \<longrightarrow> first_tick T = Inr None)
   \<and> (\<forall>t r tb. table T = (t, r) # tb \<longrightarrow> first_tick T = Inr (Some t))"
  by (auto simp: get_note_def getitem_def first_tick_def split: option.splits)

section \<open>The delta pass\<close>

lemma traverse_total: "traverse (\<lambda>x. Inr (h x)) xs = Inr (map h xs)"
  by (induction xs) simp_all

lemma for_each_note_total: "for_each_note (\<lambda>n. Inr (g n)) r = Inr (map_notes g r)"
proof -
  have "(\<lambda>(p, n). case Inr (g n) of Inl e \<Rightarrow> Inl e | Inr n1 \<Rightarrow> Inr (p, n1))
        = (\<lambda>x. Inr ((\<lambda>(p, n). (p, g n)) x) :: py_error + int \<times> Note)"
    by (auto simp: fun_eq_iff)
  then have "for_each_note (\<lambda>n. Inr (g n)) r
        = traverse (\<lambda>x. Inr ((\<lambda>(ch, c). (ch, map (\<lambda>(p, n). (p, g n)) c)) x)) r"
    by (simp add: for_each_note_def traverse_total case_prod_unfold)
  then show ?thesis by (simp add: traverse_total map_notes_def)
qed

lemma set_previous_delta_Some: "set_previous_delta (Some p) = (\<lambda>n. Inr (prev_upd p n))"
  by (simp add: fun_eq_iff set_previous_delta_def prev_upd_def)

lemma set_next_delta_eq: "set_next_delta t = (\<lambda>n. Inr (next_upd t n))"
  by (simp add: fun_eq_iff set_next_delta_def next_upd_def)

lemma delta_step_eq:
  assumes "map_of tb t = Some r"
    and "map_of (AList.update t (map_notes (prev_upd p) r) tb) p = Some pr"
  shows "delta_step tb (Some p) t
         = Inr (AList.update p (map_notes (next_upd t) pr)
                  (AList.update t (map_notes (prev_upd p) r) tb))"
  using assms
  by (simp add: delta_step_def getitem_def setitem_def
      set_previous_delta_Some set_next_delta_eq for_each_note_total)

lemma update_mid:
  "k \<notin> fst ` set xs \<Longrightarrow> AList.update k v (xs @ (k, w) # ys) = xs @ (k, v) # ys"
  by (induction xs) auto

lemma map_of_mid:
  "k \<notin> fst ` set xs \<Longrightarrow> map_of (xs @ (k, w) # ys) k = Some w"
  by (induction xs) auto

lemma delta_loop_annot:
  assumes "distinct (map fst (pre @ (p, pr) # rest))"
  shows "delta_loop (map fst rest) (Some p) (pre @ (p, pr) # rest) = Inr (pre @ annot p pr rest)"
  using assms
proof (induction rest arbitrary: pre p pr)
  case Nil
  then show ?case by simp
next
  case (Cons x rest)
  obtain t r where x: "x = (t, r)" by (cases x)
  let ?r1 = "map_notes (prev_upd p) r" and ?pr1 = "map_notes (next_upd t) pr"
  let ?tb = "pre @ (p, pr) # (t, r) # rest"
  from Cons.prems x have d: "distinct (map fst ?tb)" by simp
  then have nt: "t \<notin> fst ` set (pre @ [(p, pr)])" and np: "p \<notin> fst ` set pre" by auto
  have tb: "?tb = (pre @ [(p, pr)]) @ (t, r) # rest" by simp
  have 1: "map_of ?tb t = Some r" unfolding tb using nt by (rule map_of_mid)
  have 2: "AList.update t ?r1 ?tb = pre @ (p, pr) # (t, ?r1) # rest"
    unfolding tb using update_mid [OF nt] by simp
  have 3: "map_of (pre @ (p, pr) # (t, ?r1) # rest) p = Some pr" using np by (rule map_of_mid)
  have 4: "AList.update p ?pr1 (pre @ (p, pr) # (t, ?r1) # rest) = pre @ (p, ?pr1) # (t, ?r1) # rest"
    using np by (rule update_mid)
  have step: "delta_step ?tb (Some p) t = Inr ((pre @ [(p, ?pr1)]) @ (t, ?r1) # rest)"
    using delta_step_eq [OF 1, of p pr] 2 3 4 by simp
  have d': "distinct (map fst ((pre @ [(p, ?pr1)]) @ (t, ?r1) # rest))" using d by simp
  from Cons.IH [OF d'] step x show ?case by simp
qed

lemma update_delta_times_annot:
  assumes "distinct (ticks T)" "table T = (t0, r0) # rest"
  shows "update_delta_times T
         = Inr (T\<lparr>table := annot t0 (map_notes (next_upd t0) (map_notes (prev_upd t0) r0)) rest\<rparr>)"
proof -
  let ?r1 = "map_notes (prev_upd t0) r0"
  let ?r2 = "map_notes (next_upd t0) ?r1"
  have step: "delta_step ((t0, r0) # rest) (Some t0) t0 = Inr ((t0, ?r2) # rest)"
    using delta_step_eq [of "(t0, r0) # rest" t0 r0 t0 ?r1] by simp
  have "distinct (map fst ([] @ (t0, ?r2) # rest))" using assms by (simp add: ticks_def)
  from delta_loop_annot [OF this] step assms(2) show ?thesis
    by (simp add: update_delta_times_def first_tick_def ticks_def)
qed

lemma update_delta_times_empty:
  "table T = [] \<Longrightarrow> update_delta_times T = Inr T"
  by (simp add: update_delta_times_def first_tick_def ticks_def)

lemma row_notes_map_notes: "row_notes (map_notes g r) = map g (row_notes r)"
  by (induction r) (auto simp: row_notes_def map_notes_def map_concat case_prod_unfold comp_def)

lemma map_notes_comp: "map_notes f (map_notes g r) = map_notes (\<lambda>n. f (g n)) r"
  by (simp add: map_notes_def case_prod_unfold comp_def)

lemma map_notes_cong:
  assumes "\<And>n. n \<in> set (row_notes r) \<Longrightarrow> f n = g n"
  shows "map_notes f r = map_notes g r"
proof -
  have "\<And>ch c p n. (ch, c) \<in> set r \<Longrightarrow> (p, n) \<in> set c \<Longrightarrow> f n = g n"
    using assms by (force simp: row_notes_def)
  then show ?thesis by (auto simp: map_notes_def)
qed

lemma map_notes_ident:
  assumes "\<And>n. n \<in> set (row_notes r) \<Longrightarrow> g n = n"
  shows "map_notes g r = r"
proof -
  have "map_notes g r = map_notes (\<lambda>n. n) r" using assms by (rule map_notes_cong)
  also have "\<dots> = r" by (simp add: map_notes_def case_prod_unfold)
  finally show ?thesis .
qed

lemma annot_expected:
  assumes "row_at p pr" "row_fresh pr"
    and "list_all (\<lambda>(t, r). row_at t r \<and> row_fresh r) rest"
  shows "annot p pr rest
         = (p, map_notes (\<lambda>n. n\<lparr>next_delta_ticks := (case rest of [] \<Rightarrow> 0 | (t1, _) # _ \<Rightarrow> t1 - p)\<rparr>) pr)
           # expected (Some p) rest"
  using assms
proof (induction rest arbitrary: p pr)
  case Nil
  have "map_notes (\<lambda>n. n\<lparr>next_delta_ticks := 0\<rparr>) pr = pr"
    using Nil.prems(2) by (intro map_notes_ident) (simp add: row_fresh_def list_all_iff)
  then show ?case by simp
next
  case (Cons x rest)
  obtain t r where x: "x = (t, r)" by (cases x)
  let ?r1 = "map_notes (prev_upd p) r"
  from Cons.prems x have r: "row_at t r" "row_fresh r"
    and rest: "list_all (\<lambda>(t, r). row_at t r \<and> row_fresh r) rest" by simp_all
  have a: "row_at t ?r1" "row_fresh ?r1"
    using r by (simp_all add: row_at_def row_fresh_def row_notes_map_notes list_all_iff prev_upd_def)
  have b: "map_notes (next_upd t) pr = map_notes (\<lambda>n. n\<lparr>next_delta_ticks := t - p\<rparr>) pr"
    using Cons.prems(1) by (intro map_notes_cong) (simp add: row_at_def list_all_iff next_upd_def)
  have c: "map_notes (\<lambda>n. n\<lparr>next_delta_ticks := b\<rparr>) ?r1 = map_notes (set_gaps (t - p) b) r" for b
    unfolding map_notes_comp using r(1)
    by (intro map_notes_cong) (simp add: row_at_def list_all_iff prev_upd_def set_gaps_def)
  show ?case using Cons.IH [OF a rest] b c x by simp
qed

lemma update_delta_times_expected:
  assumes "distinct (ticks T)"
    and "list_all (\<lambda>(t, r). row_at t r \<and> row_fresh r) (table T)"
  shows "update_delta_times T = Inr (T\<lparr>table := expected None (table T)\<rparr>)"
proof (cases "table T")
  case Nil
  then show ?thesis by (simp add: update_delta_times_empty)
next
  case (Cons x rest)
  obtain t0 r0 where x: "x = (t0, r0)" by (cases x)
  let ?r2 = "map_notes (next_upd t0) (map_notes (prev_upd t0) r0)"
  from assms(2) Cons x have r: "row_at t0 r0"
    and rest: "list_all (\<lambda>(t, r). row_at t r \<and> row_fresh r) rest" by simp_all
  have z: "?r2 = map_notes (set_gaps 0 0) r0"
    unfolding map_notes_comp using r
    by (intro map_notes_cong) (simp add: row_at_def list_all_iff prev_upd_def next_upd_def set_gaps_def)
  have a: "row_at t0 ?r2" "row_fresh ?r2"
    unfolding z using r
    by (simp_all add: row_at_def row_fresh_def row_notes_map_notes list_all_iff set_gaps_def)
  have c: "map_notes (\<lambda>n. n\<lparr>next_delta_ticks := b\<rparr>) ?r2 = map_notes (set_gaps 0 b) r0" for b
  proof -
    have "map_notes (\<lambda>n. n\<lparr>next_delta_ticks := b\<rparr>) ?r2
          = map_notes (\<lambda>n. n\<lparr>next_delta_ticks := b\<rparr>) (map_notes (set_gaps 0 0) r0)"
      by (simp only: z)
    also have "\<dots> = map_notes (set_gaps 0 b) r0"
      unfolding map_notes_comp by (intro map_notes_cong) (simp add: set_gaps_def)
    finally show ?thesis .
  qed
  from update_delta_times_annot [OF assms(1), of t0 r0 rest] Cons x
  have "update_delta_times T = Inr (T\<lparr>table := annot t0 ?r2 rest\<rparr>)" by simp
  then show ?thesis using annot_expected [OF a rest] c Cons x by simp
qed

lemma expected_keys: "map fst (expected prev tb) = map fst tb"
  by (induction prev tb rule: expected.induct) simp_all

lemma expected_nth:
  assumes "i < length tb"
  shows "expected prev tb ! i
         = (fst (tb ! i),
            map_notes (set_gaps (if i = 0 then (case prev of None \<Rightarrow> 0 | Some p \<Rightarrow> fst (tb ! 0) - p)
                                 else fst (tb ! i) - fst (tb ! (i - 1)))
                                (if Suc i = length tb then 0 else fst (tb ! Suc i) - fst (tb ! i)))
              (snd (tb ! i)))"
  using assms
proof (induction prev tb arbitrary: i rule: expected.induct)
  case (1 prev)
  then show ?case by simp
next
  case (2 prev t r tb)
  show ?case
  proof (cases i)
    case 0
    then show ?thesis by (cases tb; cases prev) auto
  next
    case (Suc j)
    with "2.prems" have j: "j < length tb" by simp
    show ?thesis using "2.IH" [OF j] Suc by (cases j) simp_all
  qed
qed

section \<open>What add establishes\<close>

lemma shl1_nonneg: "0 \<le> ch \<Longrightarrow> shl1 ch = Inr (2 ^ nat ch)"
  by (simp add: shl1_def)

lemma add_channel_if_not_exists_eq:
  assumes "coding_inv T" "0 \<le> ch"
  shows "\<exists>T1. add_channel_if_not_exists T ch = Inr T1 \<and> table T1 = table T
           \<and> channels T1 = (if ch \<in> set (channels T) then channels T else channels T @ [ch])
           \<and> coding_inv T1"
proof (cases "ch \<in> set (channels T)")
  case True
  with assms have "bit (channel_coding T) (nat ch)" by (simp add: coding_inv_def)
  then have "channel_coding T AND 2 ^ nat ch \<noteq> 0" by (simp add: and_exp_eq_0_iff_not_bit)
  with True assms show ?thesis
    by (simp add: add_channel_if_not_exists_def has_channel_def shl1_nonneg)
next
  case False
  with assms have nb: "\<not> bit (channel_coding T) (nat ch)" by (simp add: coding_inv_def)
  then have z: "channel_coding T AND 2 ^ nat ch = 0" by (simp add: and_exp_eq_0_iff_not_bit)
  let ?T1 = "T\<lparr>channels := channels T @ [ch], channel_coding := channel_coding T OR 2 ^ nat ch\<rparr>"
  have e: "add_channel_if_not_exists T ch = Inr ?T1"
    using z assms(2)
    by (simp add: add_channel_if_not_exists_def has_channel_def add_channel_def shl1_nonneg)
  have "coding_inv ?T1"
    unfolding coding_inv_def
  proof
    fix c
    show "c \<in> set (channels ?T1) \<longleftrightarrow> 0 \<le> c \<and> bit (channel_coding ?T1) (nat c)"
    proof (cases "0 \<le> c")
      case True
      with assms(2) have "nat c = nat ch \<longleftrightarrow> c = ch" by auto
      with True assms(1) show ?thesis
        by (auto simp: coding_inv_def bit_or_iff bit_exp_iff)
    next
      case False
      with assms show ?thesis by (auto simp: coding_inv_def)
    qed
  qed
  with e False show ?thesis by simp
qed

lemma add_channel_if_not_exists_neg:
  "ch < 0 \<Longrightarrow> add_channel_if_not_exists T ch = Inl ValueError"
  by (simp add: add_channel_if_not_exists_def has_channel_def shl1_def)

lemma add_eq:
  assumes "add_channel_if_not_exists T (channel n) = Inr T1" "table T1 = table T"
  shows "add T n = Inr (T1\<lparr>table :=
           AList.update (timeline_tick n)
             (AList.update (channel n)
                (AList.update (pitch n) n (slot_cell (slot_row (table T) (timeline_tick n)) (channel n)))
                (slot_row (table T) (timeline_tick n)))
             (table T)\<rparr>)"
proof (cases "map_of (table T) (timeline_tick n)")
  case None
  then show ?thesis
    using assms unfolding add_def Let_def
    by (simp add: getitem_def setitem_def slot_row_def slot_cell_def AList.update_conv')
next
  case (Some r)
  show ?thesis
  proof (cases "map_of r (channel n)")
    case None
    with Some show ?thesis
      using assms unfolding add_def Let_def
      by (simp add: getitem_def setitem_def slot_row_def slot_cell_def AList.update_conv')
  next
    case (Some c)
    with \<open>map_of (table T) (timeline_tick n) = Some r\<close> show ?thesis
      using assms unfolding add_def Let_def
      by (simp add: getitem_def setitem_def slot_row_def slot_cell_def)
  qed
qed

lemma list_all_update:
  "list_all P al \<Longrightarrow> P (k, v) \<Longrightarrow> list_all P (AList.update k v al)"
  by (induction al) auto

lemma list_all_map_of:
  "list_all P al \<Longrightarrow> map_of al k = Some v \<Longrightarrow> P (k, v)"
  by (auto simp: list_all_iff dest: map_of_SomeD)

lemma list_all_row_notes:
  "list_all Q (row_notes r) = list_all (\<lambda>(ch, c). list_all (\<lambda>(p, n). Q n) c) r"
  by (induction r) (auto simp: row_notes_def list.pred_map comp_def case_prod_unfold)

lemma slot_update_notes:
  assumes "list_all Q (row_notes r)" "Q n"
  shows "list_all Q (row_notes (AList.update ch (AList.update p n (slot_cell r ch)) r))"
proof -
  let ?P = "\<lambda>(ch, c). list_all (\<lambda>(p, n). Q n) c"
  from assms(1) have r: "list_all ?P r" by (simp add: list_all_row_notes)
  have "list_all (\<lambda>(p, n). Q n) (slot_cell r ch)"
  proof (cases "map_of r ch")
    case None
    then show ?thesis by (simp add: slot_cell_def)
  next
    case (Some c)
    from list_all_map_of [OF r Some] Some show ?thesis by (simp add: slot_cell_def)
  qed
  then have "list_all (\<lambda>(p, n). Q n) (AList.update p n (slot_cell r ch))"
    using assms(2) by (intro list_all_update) simp_all
  then have "list_all ?P (AList.update ch (AList.update p n (slot_cell r ch)) r)"
    using r by (intro list_all_update) simp_all
  then show ?thesis by (simp add: list_all_row_notes)
qed

lemma slot_row_all:
  assumes "list_all P tb" "P (t, [])"
  shows "P (t, slot_row tb t)"
proof (cases "map_of tb t")
  case None
  with assms(2) show ?thesis by (simp add: slot_row_def)
next
  case (Some r)
  from list_all_map_of [OF assms(1) Some] Some show ?thesis by (simp add: slot_row_def)
qed

lemma add_inv:
  assumes inv: "index_inv T" and fresh: "next_delta_ticks n = 0" and ch: "0 \<le> channel n"
  shows "\<exists>T1. add T n = Inr T1 \<and> index_inv T1 \<and> table T1 \<noteq> []"
proof -
  let ?t = "timeline_tick n" and ?ch = "channel n" and ?tb = "table T"
  from inv have ci: "coding_inv T" and si: "struct_inv (channels T) ?tb" and ni: "notes_inv ?tb"
    by (simp_all add: index_inv_def)
  from add_channel_if_not_exists_eq [OF ci ch]
  obtain T0 where T0: "add_channel_if_not_exists T ?ch = Inr T0" "table T0 = ?tb"
    "channels T0 = (if ?ch \<in> set (channels T) then channels T else channels T @ [?ch])"
    "coding_inv T0" by blast
  let ?r0 = "slot_row ?tb ?t"
  let ?r1 = "AList.update ?ch (AList.update (pitch n) n (slot_cell ?r0 ?ch)) ?r0"
  let ?T1 = "T0\<lparr>table := AList.update ?t ?r1 ?tb\<rparr>"
  have e: "add T n = Inr ?T1" using add_eq [OF T0(1,2)] .
  have sub: "set (channels T) \<subseteq> set (channels T0)" and mem: "?ch \<in> set (channels T0)"
    using T0(3) by auto
  from si have d: "distinct (map fst ?tb)" and s: "list_all (\<lambda>(t, r). row_struct (channels T) r) ?tb"
    by (simp_all add: struct_inv_def)
  have mono: "row_struct (channels T) r \<Longrightarrow> row_struct (channels T0) r" for r
    using sub by (auto simp: row_struct_def list_all_iff)
  have s0: "list_all (\<lambda>(t, r). row_struct (channels T0) r) ?tb"
    using s mono by (simp add: list_all_iff case_prod_unfold)
  have "row_struct (channels T0) ?r0"
    using slot_row_all [where P = "\<lambda>(t, r). row_struct (channels T0) r", OF s0, of ?t]
    by (simp add: row_struct_def)
  then have "row_struct (channels T0) ?r1"
    using mem by (simp add: row_struct_def AList.update_keys list_all_iff)
  then have s1: "list_all (\<lambda>(t, r). row_struct (channels T0) r) (AList.update ?t ?r1 ?tb)"
    using s0 by (intro list_all_update) simp_all
  have st: "struct_inv (channels ?T1) (table ?T1)"
    using d s1 by (simp add: struct_inv_def AList.distinct_update)
  from ni have n0: "list_all (\<lambda>(t, r). row_at t r \<and> row_fresh r) ?tb" by (simp add: notes_inv_def)
  have "row_at ?t ?r0 \<and> row_fresh ?r0"
    using slot_row_all [where P = "\<lambda>(t, r). row_at t r \<and> row_fresh r", OF n0, of ?t]
    by (simp add: row_at_def row_fresh_def row_notes_def)
  then have "row_at ?t ?r1 \<and> row_fresh ?r1"
    using fresh unfolding row_at_def row_fresh_def
    by (simp add: slot_update_notes)
  then have "list_all (\<lambda>(t, r). row_at t r \<and> row_fresh r) (AList.update ?t ?r1 ?tb)"
    using n0 by (intro list_all_update) simp_all
  then have nt: "notes_inv (table ?T1)" by (simp add: notes_inv_def)
  have "coding_inv ?T1" using T0(4) by (simp add: coding_inv_def)
  with st nt have "index_inv ?T1" by (simp add: index_inv_def)
  with e show ?thesis by simp
qed

lemma index_inv_init: "index_inv OrganizedNotesTable_init"
  by (simp add: index_inv_def coding_inv_def struct_inv_def notes_inv_def OrganizedNotesTable_init_def)

lemma add_neg: "channel n < 0 \<Longrightarrow> add T n = Inl ValueError"
  by (simp add: add_def add_channel_if_not_exists_neg)

lemma add_all_inv:
  assumes "index_inv T" "list_all (\<lambda>n. next_delta_ticks n = 0) ns" "add_all T ns = Inr T1"
  shows "index_inv T1 \<and> (ns \<noteq> [] \<or> table T \<noteq> [] \<longrightarrow> table T1 \<noteq> [])"
  using assms
proof (induction ns arbitrary: T)
  case Nil
  then show ?case by simp
next
  case (Cons n ns)
  have ch: "0 \<le> channel n"
  proof (rule ccontr)
    assume "\<not> 0 \<le> channel n"
    then have "add T n = Inl ValueError" by (simp add: add_neg)
    with Cons.prems(3) show False by simp
  qed
  from Cons.prems(2) have f: "next_delta_ticks n = 0" "list_all (\<lambda>n. next_delta_ticks n = 0) ns"
    by simp_all
  from add_inv [OF Cons.prems(1) f(1) ch]
  obtain T0 where T0: "add T n = Inr T0" "index_inv T0" "table T0 \<noteq> []" by blast
  with Cons.prems(3) have "add_all T0 ns = Inr T1" by simp
  from Cons.IH [OF T0(2) f(2) this] T0(3) show ?case by simp
qed

lemma sort_table_inv:
  assumes "index_inv T"
  shows "index_inv (sort_table T) \<and> sorted_wrt (<) (ticks (sort_table T))"
proof -
  let ?tb = "sort_key fst (table T)"
  from assms have d: "distinct (map fst (table T))" by (simp add: index_inv_def struct_inv_def)
  have s: "sorted (map fst ?tb)" by (rule sorted_sort_key)
  have d': "distinct (map fst ?tb)" using d by (simp add: distinct_map inj_on_def)
  have l: "list_all P ?tb = list_all P (table T)" for P by (simp add: list_all_iff)
  have "index_inv (sort_table T)"
    using assms d' by (simp add: index_inv_def struct_inv_def notes_inv_def coding_inv_def sort_table_def l)
  moreover have "sorted_wrt (<) (ticks (sort_table T))"
    using s d' by (simp add: strict_sorted_iff ticks_def sort_table_def)
  ultimately show ?thesis ..
qed

lemma make_notes_fresh: "list_all (\<lambda>n. next_delta_ticks n = 0) (make_notes args)"
  by (simp add: make_notes_def list_all_iff Note_init_def case_prod_unfold)

text \<open>
  Claim C1. Take an index filled by \<open>add\<close> from at least one freshly constructed note,
  then sorted. \<open>update_delta_times\<close> returns; the ticks are unchanged and strictly
  ascending; row \<open>i\<close> holds the notes it held, with both gaps set: the previous gap is 0
  in the first row and the distance to the tick of row \<open>i - 1\<close> elsewhere, the next gap is
  the distance to the tick of row \<open>i + 1\<close> and 0 in the last row.
\<close>

theorem update_delta_times_gaps:
  assumes "add_all OrganizedNotesTable_init (make_notes args) = Inr T0" and "args \<noteq> []"
  shows "\<exists>T1. update_delta_times (sort_table T0) = Inr T1
     \<and> ticks T1 = ticks (sort_table T0) \<and> sorted_wrt (<) (ticks T1) \<and> ticks T1 \<noteq> []
     \<and> (\<forall>i<length (ticks T1).
          table T1 ! i =
            (ticks T1 ! i,
             map_notes (set_gaps (if i = 0 then 0 else ticks T1 ! i - ticks T1 ! (i - 1))
                                 (if Suc i = length (ticks T1) then 0
                                  else ticks T1 ! Suc i - ticks T1 ! i))
               (snd (table (sort_table T0) ! i)))
          \<and> (\<forall>n\<in>set (row_notes (snd (table T1 ! i))).
                timeline_tick n = ticks T1 ! i
                \<and> previous_delta_ticks n = (if i = 0 then 0 else ticks T1 ! i - ticks T1 ! (i - 1))
                \<and> next_delta_ticks n = (if Suc i = length (ticks T1) then 0
                                         else ticks T1 ! Suc i - ticks T1 ! i)))"
proof -
  let ?S = "sort_table T0"
  let ?tb = "table ?S"
  from assms(2) have ne: "make_notes args \<noteq> []" by (simp add: make_notes_def)
  from add_all_inv [OF index_inv_init make_notes_fresh assms(1)] ne
  have i0: "index_inv T0" and n0: "table T0 \<noteq> []" by simp_all
  from sort_table_inv [OF i0] have iS: "index_inv ?S" and sS: "sorted_wrt (<) (ticks ?S)" by simp_all
  from n0 have nS: "?tb \<noteq> []" by (simp add: sort_table_def del: sort_key_simps) (metis length_0_conv length_sort)
  from sS have dS: "distinct (ticks ?S)" by (simp add: strict_sorted_iff)
  from iS have nI: "list_all (\<lambda>(t, r). row_at t r \<and> row_fresh r) ?tb"
    by (simp add: index_inv_def notes_inv_def)
  let ?T1 = "?S\<lparr>table := expected None ?tb\<rparr>"
  have u: "update_delta_times ?S = Inr ?T1" using dS nI by (rule update_delta_times_expected)
  have k: "ticks ?T1 = ticks ?S" by (simp add: ticks_def expected_keys)
  have len: "length (ticks ?S) = length ?tb" by (simp add: ticks_def)
  have row: "table ?T1 ! i =
            (ticks ?T1 ! i,
             map_notes (set_gaps (if i = 0 then 0 else ticks ?T1 ! i - ticks ?T1 ! (i - 1))
                                 (if Suc i = length (ticks ?T1) then 0
                                  else ticks ?T1 ! Suc i - ticks ?T1 ! i))
               (snd (?tb ! i)))" if "i < length (ticks ?T1)" for i
  proof -
    from that have i: "i < length ?tb" by (simp add: k len)
    then have "i - 1 < length ?tb" by simp
    with i show ?thesis
      unfolding k using expected_nth [OF i, of None]
      by (auto simp: ticks_def nth_map)
  qed
  have nts: "timeline_tick n = ticks ?T1 ! i
                \<and> previous_delta_ticks n = (if i = 0 then 0 else ticks ?T1 ! i - ticks ?T1 ! (i - 1))
                \<and> next_delta_ticks n = (if Suc i = length (ticks ?T1) then 0
                                         else ticks ?T1 ! Suc i - ticks ?T1 ! i)"
    if "i < length (ticks ?T1)" "n \<in> set (row_notes (snd (table ?T1 ! i)))" for i n
  proof -
    from that(1) have i: "i < length ?tb" by (simp add: k len)
    then have "?tb ! i \<in> set ?tb" by simp
    with nI have "row_at (fst (?tb ! i)) (snd (?tb ! i))"
      by (auto simp: list_all_iff)
    moreover have "ticks ?T1 ! i = fst (?tb ! i)"
      unfolding k using i by (simp add: ticks_def)
    ultimately have at: "\<forall>m\<in>set (row_notes (snd (?tb ! i))). timeline_tick m = ticks ?T1 ! i"
      by (simp add: row_at_def list_all_iff)
    from that(2) row [OF that(1)] obtain m where "m \<in> set (row_notes (snd (?tb ! i)))"
      "n = set_gaps (if i = 0 then 0 else ticks ?T1 ! i - ticks ?T1 ! (i - 1))
                                 (if Suc i = length (ticks ?T1) then 0
                                  else ticks ?T1 ! Suc i - ticks ?T1 ! i) m"
      by (auto simp: row_notes_map_notes)
    with at show ?thesis by (simp add: set_gaps_def)
  qed
  have ne1: "ticks ?T1 \<noteq> []" unfolding k using nS by (simp add: ticks_def)
  have s1: "sorted_wrt (<) (ticks ?T1)" unfolding k by (rule sS)
  show ?thesis
  proof (rule exI [of _ ?T1], intro conjI allI impI ballI)
    show "update_delta_times ?S = Inr ?T1" by (rule u)
    show "ticks ?T1 = ticks ?S" by (rule k)
    show "sorted_wrt (<) (ticks ?T1)" by (rule s1)
    show "ticks ?T1 \<noteq> []" by (rule ne1)
  next
    fix i assume "i < length (ticks ?T1)"
    then show "table ?T1 ! i =
            (ticks ?T1 ! i,
             map_notes (set_gaps (if i = 0 then 0 else ticks ?T1 ! i - ticks ?T1 ! (i - 1))
                                 (if Suc i = length (ticks ?T1) then 0
                                  else ticks ?T1 ! Suc i - ticks ?T1 ! i))
               (snd (?tb ! i)))" by (rule row)
  next
    fix i n assume a: "i < length (ticks ?T1)" "n \<in> set (row_notes (snd (table ?T1 ! i)))"
    from nts [OF a] show "timeline_tick n = ticks ?T1 ! i" by (rule conjunct1)
    from nts [OF a] show "previous_delta_ticks n = (if i = 0 then 0 else ticks ?T1 ! i - ticks ?T1 ! (i - 1))"
      by (elim conjE)
    from nts [OF a] show "next_delta_ticks n = (if Suc i = length (ticks ?T1) then 0
                                         else ticks ?T1 ! Suc i - ticks ?T1 ! i)"
      by (elim conjE)
  qed
qed

section \<open>The delta pass never raises\<close>

lemma row_channels_update:
  assumes "map_of tb k = Some r" "map fst r1 = map fst r"
  shows "row_channels (AList.update k r1 tb) = row_channels tb"
  using assms by (induction tb) (auto simp: row_channels_def)

lemma map_fst_map_notes: "map fst (map_notes g r) = map fst r"
  by (simp add: map_notes_def case_prod_unfold comp_def)

lemma keys_row_channels: "map fst (row_channels tb) = map fst tb"
  by (simp add: row_channels_def case_prod_unfold comp_def)

lemma map_of_key: "k \<in> fst ` set tb \<Longrightarrow> \<exists>v. map_of tb k = Some v"
  by (cases "map_of tb k") (simp_all add: map_of_eq_None_iff)

lemma delta_step_total:
  assumes "t \<in> fst ` set tb" "p \<in> fst ` set tb"
  shows "\<exists>tb1. delta_step tb (Some p) t = Inr tb1 \<and> row_channels tb1 = row_channels tb"
proof -
  from map_of_key [OF assms(1)] obtain r where r: "map_of tb t = Some r" by blast
  let ?tb1 = "AList.update t (map_notes (prev_upd p) r) tb"
  have c1: "row_channels ?tb1 = row_channels tb"
    using r by (rule row_channels_update) (rule map_fst_map_notes)
  have "fst ` set ?tb1 = fst ` set tb" using assms(1) by (auto simp: AList.dom_update)
  with assms(2) have "p \<in> fst ` set ?tb1" by simp
  from map_of_key [OF this] obtain pr where pr: "map_of ?tb1 p = Some pr" by blast
  let ?tb2 = "AList.update p (map_notes (next_upd t) pr) ?tb1"
  have "row_channels ?tb2 = row_channels ?tb1"
    using pr by (rule row_channels_update) (rule map_fst_map_notes)
  with c1 delta_step_eq [OF r pr] show ?thesis by simp
qed

lemma delta_loop_total:
  assumes "set ks \<subseteq> fst ` set tb" "p \<in> fst ` set tb"
  shows "\<exists>tb1. delta_loop ks (Some p) tb = Inr tb1 \<and> row_channels tb1 = row_channels tb"
  using assms
proof (induction ks arbitrary: p tb)
  case Nil
  then show ?case by simp
next
  case (Cons t ks)
  then have t: "t \<in> fst ` set tb" by simp
  from delta_step_total [OF t Cons.prems(2)]
  obtain tb1 where s: "delta_step tb (Some p) t = Inr tb1" "row_channels tb1 = row_channels tb"
    by blast
  have "map fst tb1 = map fst tb" using s(2) keys_row_channels by metis
  then have k: "fst ` set tb1 = fst ` set tb" by (metis set_map)
  from Cons.prems(1) t k have "set ks \<subseteq> fst ` set tb1" "t \<in> fst ` set tb1" by simp_all
  from Cons.IH [OF this] s show ?case by auto
qed

text \<open>
  Claim C9. \<open>update_delta_times\<close> returns on every table, sorted or not, empty or not.
  The second inner loop walks the channels of the row of \<open>previous_tick\<close> itself, so a
  channel of the current tick that the previous tick lacks is never looked up there; the
  channel list, the ticks and the channels of every row are left as they were.
\<close>

theorem update_delta_times_total:
  "\<exists>T1. update_delta_times T = Inr T1 \<and> channels T1 = channels T
        \<and> ticks T1 = ticks T \<and> row_channels (table T1) = row_channels (table T)"
proof (cases "table T")
  case Nil
  then have "update_delta_times T = Inr T" by (rule update_delta_times_empty)
  then show ?thesis by simp
next
  case (Cons x rest)
  obtain t0 r0 where x: "x = (t0, r0)" by (cases x)
  have "set (ticks T) \<subseteq> fst ` set (table T)" "t0 \<in> fst ` set (table T)"
    using Cons x by (simp_all add: ticks_def)
  from delta_loop_total [OF this]
  obtain tb1 where l: "delta_loop (ticks T) (Some t0) (table T) = Inr tb1"
    "row_channels tb1 = row_channels (table T)" by blast
  have "map fst tb1 = map fst (table T)" using l(2) keys_row_channels by metis
  with l Cons x show ?thesis
    by (simp add: update_delta_times_def first_tick_def ticks_def)
qed

section \<open>Building the transcript\<close>

lemma init_tracks_foldl:
  "map_of (foldl (\<lambda>tr ch. setitem tr ch []) tr0 chs) ch
     = (if ch \<in> set chs then Some [] else map_of tr0 ch)
   \<and> (distinct (map fst tr0) \<longrightarrow> distinct (map fst (foldl (\<lambda>tr ch. setitem tr ch []) tr0 chs)))
   \<and> fst ` set (foldl (\<lambda>tr ch. setitem tr ch []) tr0 chs) = fst ` set tr0 \<union> set chs"
  by (induction chs arbitrary: tr0)
     (auto simp: setitem_def AList.update_conv' AList.distinct_update AList.dom_update)

lemma init_tracks_props:
  "map_of (init_tracks chs) ch = (if ch \<in> set chs then Some [] else None)"
  "distinct (map fst (init_tracks chs))"
  "fst ` set (init_tracks chs) = set chs"
  using init_tracks_foldl [of "[]" chs ch] by (auto simp: init_tracks_def split: if_splits)

lemma append_event_eq:
  assumes "map_of tr ch = Some evs"
  shows "append_event tr (ch, c) = Inr (AList.update ch (evs @ [event_of c]) tr)"
  using assms by (simp add: append_event_def getitem_def setitem_def event_of_def)

lemma build_row_eq:
  assumes "distinct (map fst r)" "fst ` set r \<subseteq> fst ` set tr"
  shows "\<exists>tr1. build_row tr r = Inr tr1 \<and> map fst tr1 = map fst tr
           \<and> (\<forall>ch. map_of tr1 ch = (case map_of r ch of None \<Rightarrow> map_of tr ch
                                    | Some c \<Rightarrow> Some (the (map_of tr ch) @ [event_of c])))"
  using assms
proof (induction r arbitrary: tr)
  case Nil
  then show ?case by simp
next
  case (Cons x r)
  obtain ch0 c0 where x: "x = (ch0, c0)" by (cases x)
  from Cons.prems x have k: "ch0 \<in> fst ` set tr" and d: "distinct (map fst r)"
    and n: "ch0 \<notin> fst ` set r" and sub: "fst ` set r \<subseteq> fst ` set tr" by auto
  from map_of_key [OF k] obtain evs where evs: "map_of tr ch0 = Some evs" by blast
  let ?tr0 = "AList.update ch0 (evs @ [event_of c0]) tr"
  have a: "append_event tr x = Inr ?tr0" using append_event_eq [OF evs] x by simp
  have keys: "map fst ?tr0 = map fst tr" using k by (simp add: AList.update_keys)
  then have "fst ` set ?tr0 = fst ` set tr" by (metis set_map)
  with sub have sub0: "fst ` set r \<subseteq> fst ` set ?tr0" by simp
  from Cons.IH [OF d sub0] obtain tr1 where tr1: "build_row ?tr0 r = Inr tr1"
    "map fst tr1 = map fst ?tr0"
    "\<forall>ch. map_of tr1 ch = (case map_of r ch of None \<Rightarrow> map_of ?tr0 ch
                            | Some c \<Rightarrow> Some (the (map_of ?tr0 ch) @ [event_of c]))"
    by blast
  have r0: "map_of r ch0 = None" using n by (simp add: map_of_eq_None_iff)
  have "map_of tr1 ch = (case map_of (x # r) ch of None \<Rightarrow> map_of tr ch
                         | Some c \<Rightarrow> Some (the (map_of tr ch) @ [event_of c]))" for ch
  proof (cases "ch = ch0")
    case True
    with tr1(3) r0 evs x show ?thesis by (simp add: AList.update_conv')
  next
    case False
    with tr1(3) x show ?thesis by (simp add: AList.update_conv' split: option.splits)
  qed
  with a tr1(1,2) keys show ?case by simp
qed

lemma buckets_Cons:
  "buckets ((t, r) # tb) ch
     = (case map_of r ch of None \<Rightarrow> [] | Some c \<Rightarrow> [(t, c)]) @ buckets tb ch"
  by (simp add: buckets_def)

lemma build_rows_eq:
  assumes "list_all (\<lambda>(t, r). row_struct chs r) tb" "fst ` set tr = set chs"
  shows "\<exists>tr1. build_rows tr tb = Inr tr1 \<and> map fst tr1 = map fst tr
           \<and> (\<forall>ch\<in>set chs. map_of tr1 ch
                  = Some (the (map_of tr ch) @ map (\<lambda>(t, c). event_of c) (buckets tb ch)))"
  using assms
proof (induction tb arbitrary: tr)
  case Nil
  have "map_of tr ch = Some (the (map_of tr ch))" if "ch \<in> set chs" for ch
    using that Nil.prems(2) map_of_key [of ch tr] by auto
  then show ?case by (simp add: buckets_def)
next
  case (Cons x tb)
  obtain t r where x: "x = (t, r)" by (cases x)
  from Cons.prems x have rs: "row_struct chs r"
    and rest: "list_all (\<lambda>(t, r). row_struct chs r) tb" by simp_all
  from rs Cons.prems(2) have d: "distinct (map fst r)" and sub: "fst ` set r \<subseteq> fst ` set tr"
    by (auto simp: row_struct_def list_all_iff)
  from build_row_eq [OF d sub] obtain tr0 where tr0: "build_row tr r = Inr tr0"
    "map fst tr0 = map fst tr"
    "\<forall>ch. map_of tr0 ch = (case map_of r ch of None \<Rightarrow> map_of tr ch
                            | Some c \<Rightarrow> Some (the (map_of tr ch) @ [event_of c]))"
    by blast
  have "fst ` set tr0 = fst ` set tr" using tr0(2) by (metis set_map)
  with Cons.prems(2) have k0: "fst ` set tr0 = set chs" by simp
  from Cons.IH [OF rest k0] obtain tr1 where tr1: "build_rows tr0 tb = Inr tr1"
    "map fst tr1 = map fst tr0"
    "\<forall>ch\<in>set chs. map_of tr1 ch
        = Some (the (map_of tr0 ch) @ map (\<lambda>(t, c). event_of c) (buckets tb ch))"
    by blast
  have "map_of tr1 ch = Some (the (map_of tr ch) @ map (\<lambda>(t, c). event_of c) (buckets (x # tb) ch))"
    if "ch \<in> set chs" for ch
  proof -
    from that Cons.prems(2) map_of_key [of ch tr] obtain evs where evs: "map_of tr ch = Some evs"
      by auto
    show ?thesis
      using tr1(3) that tr0(3) evs x
      by (cases "map_of r ch") (simp_all add: buckets_Cons)
  qed
  with tr0(1,2) tr1(1,2) x show ?case by simp
qed

lemma build_eq:
  assumes "list_all (\<lambda>(t, r). row_struct (channels T) r) (table T)"
  shows "\<exists>tr. build T = Inr tr \<and> distinct (map fst tr) \<and> set (map fst tr) = set (channels T)
           \<and> (\<forall>ch\<in>set (channels T).
                 map_of tr ch = Some (map (\<lambda>(t, c). event_of c) (buckets (table T) ch)))"
proof -
  let ?tr0 = "init_tracks (channels T)"
  from build_rows_eq [OF assms init_tracks_props(3)]
  obtain tr where tr: "build_rows ?tr0 (table T) = Inr tr" "map fst tr = map fst ?tr0"
    "\<forall>ch\<in>set (channels T). map_of tr ch
        = Some (the (map_of ?tr0 ch) @ map (\<lambda>(t, c). event_of c) (buckets (table T) ch))"
    by blast
  have "set (map fst tr) = set (channels T)"
    using tr(2) init_tracks_props(3) [of "channels T"] by (metis set_map)
  moreover have "distinct (map fst tr)" using tr(2) init_tracks_props(2) by simp
  ultimately show ?thesis using tr(1,3) by (simp add: build_def init_tracks_props(1))
qed

lemma buckets_Nil: "buckets [] ch = []"
  by (simp add: buckets_def)

lemma buckets_keys_subset: "set (map fst (buckets tb ch)) \<subseteq> set (map fst tb)"
proof (induction tb)
  case Nil
  then show ?case by (simp add: buckets_Nil)
next
  case (Cons x tb)
  obtain t r where x: "x = (t, r)" by (cases x)
  with Cons show ?case by (cases "map_of r ch") (auto simp: buckets_Cons)
qed

lemma buckets_sorted:
  "sorted_wrt (<) (map fst tb) \<Longrightarrow> sorted_wrt (<) (map fst (buckets tb ch))"
proof (induction tb)
  case Nil
  then show ?case by (simp add: buckets_def)
next
  case (Cons x tb)
  obtain t r where x: "x = (t, r)" by (cases x)
  from Cons x have s: "sorted_wrt (<) (map fst (buckets tb ch))"
    and lt: "\<forall>k\<in>set (map fst tb). t < k" by simp_all
  from lt buckets_keys_subset [of tb ch] have "\<forall>k\<in>set (map fst (buckets tb ch)). t < k" by blast
  with s x show ?case by (cases "map_of r ch") (simp_all add: buckets_Cons)
qed

lemma buckets_mem:
  "(t, c) \<in> set (buckets tb ch) \<longleftrightarrow> (\<exists>r. (t, r) \<in> set tb \<and> map_of r ch = Some c)"
proof (induction tb)
  case Nil
  then show ?case by (simp add: buckets_Nil)
next
  case (Cons x tb)
  obtain t0 r0 where x: "x = (t0, r0)" by (cases x)
  with Cons show ?case by (cases "map_of r0 ch") (auto simp: buckets_Cons)
qed

lemma struct_inv_row_channels:
  "struct_inv chs tb
     = (distinct (map fst (row_channels tb))
        \<and> list_all (\<lambda>(t, ks). distinct ks \<and> list_all (\<lambda>ch. ch \<in> set chs) ks) (row_channels tb))"
  by (simp add: struct_inv_def row_struct_def row_channels_def list.pred_map comp_def
      case_prod_unfold)

lemma struct_inv_cong:
  "row_channels tb1 = row_channels tb \<Longrightarrow> struct_inv chs tb1 = struct_inv chs tb"
  by (simp add: struct_inv_row_channels)

lemma expected_row_channels: "row_channels (expected prev tb) = row_channels tb"
  by (induction prev tb rule: expected.induct) (simp_all add: row_channels_def map_fst_map_notes)

lemma expected_row_at:
  "list_all (\<lambda>(t, r). row_at t r) tb \<Longrightarrow> list_all (\<lambda>(t, r). row_at t r) (expected prev tb)"
  by (induction prev tb rule: expected.induct)
     (simp_all add: row_at_def row_notes_map_notes list_all_iff set_gaps_def)

lemma cell_notes_in_row:
  assumes "map_of r ch = Some c"
  shows "set (map snd c) \<subseteq> set (row_notes r)"
proof -
  from assms have "(ch, c) \<in> set r" by (rule map_of_SomeD)
  then show ?thesis by (force simp: row_notes_def)
qed

text \<open>
  Claim C3. Take an index filled by \<open>add\<close> from freshly constructed notes, sorted and
  delta-annotated. Building the transcript succeeds; the tracks have exactly the channels
  of \<open>channels\<close> as keys, each once, and every channel of a row is among them. The
  track of a channel is the sequence of sound events made of the cells of that channel,
  one event per cell, in the order of the table; the ticks of these cells ascend strictly;
  the cells are exactly those found under a tick and the channel; and the event of a cell
  holds exactly the notes of the cell, all of them at the tick of the cell.
\<close>

theorem transcript_grouping:
  assumes "add_all OrganizedNotesTable_init (make_notes args) = Inr T0"
      and "update_delta_times (sort_table T0) = Inr T"
  shows "\<exists>M. MusicalTranscript_init T = Inr M
     \<and> distinct (map fst (tracks M)) \<and> set (map fst (tracks M)) = set (channels T)
     \<and> (\<forall>(t, r)\<in>set (table T). set (map fst r) \<subseteq> set (channels T))
     \<and> (\<forall>ch\<in>set (channels T).
          map_of (tracks M) ch
            = Some (map (\<lambda>(t, c). SoundEvent_init (map snd c)) (buckets (table T) ch))
          \<and> sorted_wrt (<) (map fst (buckets (table T) ch))
          \<and> (\<forall>t c. (t, c) \<in> set (buckets (table T) ch)
                  \<longleftrightarrow> (\<exists>r. map_of (table T) t = Some r \<and> map_of r ch = Some c))
          \<and> (\<forall>(t, c)\<in>set (buckets (table T) ch).
                 mset (se_notes (SoundEvent_init (map snd c))) = mset (map snd c)
                 \<and> (\<forall>n\<in>set (map snd c). timeline_tick n = t)))"
proof -
  let ?S = "sort_table T0"
  from add_all_inv [OF index_inv_init make_notes_fresh assms(1)]
  have i0: "index_inv T0" by simp
  from sort_table_inv [OF i0] have iS: "index_inv ?S" and sS: "sorted_wrt (<) (ticks ?S)" by simp_all
  from sS have dS: "distinct (ticks ?S)" by (simp add: strict_sorted_iff)
  from iS have nI: "list_all (\<lambda>(t, r). row_at t r \<and> row_fresh r) (table ?S)"
    and stS: "struct_inv (channels ?S) (table ?S)"
    by (simp_all add: index_inv_def notes_inv_def)
  from update_delta_times_expected [OF dS nI] assms(2)
  have T: "T = ?S\<lparr>table := expected None (table ?S)\<rparr>" by simp
  have chT: "channels T = channels ?S" and tkT: "ticks T = ticks ?S"
    by (simp_all add: T ticks_def expected_keys)
  have rc: "row_channels (table T) = row_channels (table ?S)"
    by (simp add: T expected_row_channels)
  have stT: "struct_inv (channels T) (table T)"
    using stS struct_inv_cong [OF rc] chT by simp
  then have rows: "list_all (\<lambda>(t, r). row_struct (channels T) r) (table T)"
    and dT: "distinct (map fst (table T))" by (simp_all add: struct_inv_def)
  have sT: "sorted_wrt (<) (map fst (table T))" using sS tkT by (simp add: ticks_def)
  from nI have "list_all (\<lambda>(t, r). row_at t r) (table ?S)" by (simp add: list_all_iff case_prod_unfold)
  then have atT: "list_all (\<lambda>(t, r). row_at t r) (table T)"
    unfolding T by (simp add: expected_row_at)
  from build_eq [OF rows] obtain tr where tr: "build T = Inr tr" "distinct (map fst tr)"
    "set (map fst tr) = set (channels T)"
    "\<forall>ch\<in>set (channels T). map_of tr ch = Some (map (\<lambda>(t, c). event_of c) (buckets (table T) ch))"
    by blast
  let ?M = "\<lparr>notes_table = T, tracks = tr\<rparr>"
  have m: "MusicalTranscript_init T = Inr ?M" using tr(1) by (simp add: MusicalTranscript_init_def)
  have ev: "(\<lambda>(t, c). event_of c) = (\<lambda>(t :: int, c). SoundEvent_init (map snd c))"
    by (simp add: event_of_def fun_eq_iff)
  have cover: "\<forall>(t, r)\<in>set (table T). set (map fst r) \<subseteq> set (channels T)"
    using rows by (auto simp: list_all_iff row_struct_def)
  have mem: "(t, c) \<in> set (buckets (table T) ch)
             \<longleftrightarrow> (\<exists>r. map_of (table T) t = Some r \<and> map_of r ch = Some c)" for t c ch
    using dT by (simp add: buckets_mem)
  have nts: "mset (se_notes (SoundEvent_init (map snd c))) = mset (map snd c)
               \<and> (\<forall>n\<in>set (map snd c). timeline_tick n = t)"
    if "(t, c) \<in> set (buckets (table T) ch)" for t c ch
  proof -
    from that obtain r where r: "(t, r) \<in> set (table T)" "map_of r ch = Some c"
      by (auto simp: buckets_mem)
    from atT r(1) have "row_at t r" by (auto simp: list_all_iff)
    with cell_notes_in_row [OF r(2)] have "\<forall>n\<in>set (map snd c). timeline_tick n = t"
      by (auto simp: row_at_def list_all_iff)
    then show ?thesis by (simp add: SoundEvent_init_def)
  qed
  have per_channel: "map_of (tracks ?M) ch
            = Some (map (\<lambda>(t, c). SoundEvent_init (map snd c)) (buckets (table T) ch))
          \<and> sorted_wrt (<) (map fst (buckets (table T) ch))
          \<and> (\<forall>t c. (t, c) \<in> set (buckets (table T) ch)
                  \<longleftrightarrow> (\<exists>r. map_of (table T) t = Some r \<and> map_of r ch = Some c))
          \<and> (\<forall>(t, c)\<in>set (buckets (table T) ch).
                 mset (se_notes (SoundEvent_init (map snd c))) = mset (map snd c)
                 \<and> (\<forall>n\<in>set (map snd c). timeline_tick n = t))"
    if ch: "ch \<in> set (channels T)" for ch
  proof (intro conjI)
    from ch tr(4) show "map_of (tracks ?M) ch
            = Some (map (\<lambda>(t, c). SoundEvent_init (map snd c)) (buckets (table T) ch))"
      by (simp add: ev)
    show "sorted_wrt (<) (map fst (buckets (table T) ch))" using sT by (rule buckets_sorted)
    show "\<forall>t c. (t, c) \<in> set (buckets (table T) ch)
             \<longleftrightarrow> (\<exists>r. map_of (table T) t = Some r \<and> map_of r ch = Some c)"
      using mem by blast
    show "\<forall>(t, c)\<in>set (buckets (table T) ch).
                 mset (se_notes (SoundEvent_init (map snd c))) = mset (map snd c)
                 \<and> (\<forall>n\<in>set (map snd c). timeline_tick n = t)"
      using nts by blast
  qed
  show ?thesis
  proof (rule exI [of _ ?M], intro conjI)
    show "MusicalTranscript_init T = Inr ?M" by (rule m)
    show "distinct (map fst (tracks ?M))" using tr(2) by simp
    show "set (map fst (tracks ?M)) = set (channels T)" using tr(3) by simp
    show "\<forall>(t, r)\<in>set (table T). set (map fst r) \<subseteq> set (channels T)" by (rule cover)
    show "\<forall>ch\<in>set (channels T). map_of (tracks ?M) ch
            = Some (map (\<lambda>(t, c). SoundEvent_init (map snd c)) (buckets (table T) ch))
          \<and> sorted_wrt (<) (map fst (buckets (table T) ch))
          \<and> (\<forall>t c. (t, c) \<in> set (buckets (table T) ch)
                  \<longleftrightarrow> (\<exists>r. map_of (table T) t = Some r \<and> map_of r ch = Some c))
          \<and> (\<forall>(t, c)\<in>set (buckets (table T) ch).
                 mset (se_notes (SoundEvent_init (map snd c))) = mset (map snd c)
                 \<and> (\<forall>n\<in>set (map snd c). timeline_tick n = t))"
      using per_channel by (rule ballI)
  qed
qed

section \<open>The worked example\<close>

lemma example_add:
  "add_all OrganizedNotesTable_init (make_notes example_args) = Inr example_index"
  by (simp add: example_args_def example_index_def make_notes_def add_def
      add_channel_if_not_exists_def has_channel_def add_channel_def
      shl1_def getitem_def setitem_def OrganizedNotesTable_init_def Note_init_def)

lemma example_update:
  "update_delta_times (sort_table example_index) = Inr example_annotated"
  by (simp add: example_index_def example_annotated_def sort_table_def update_delta_times_def
      first_tick_def ticks_def delta_step_def getitem_def setitem_def
      for_each_note_def set_previous_delta_def set_next_delta_def set_gaps_def Note_init_def)

theorem update_delta_times_gaps_witness:
  "add_all OrganizedNotesTable_init (make_notes example_args) = Inr example_index
   \<and> example_args \<noteq> []
   \<and> update_delta_times (sort_table example_index) = Inr example_annotated
   \<and> ticks example_annotated = [0, 4]
   \<and> map previous_delta_ticks (row_notes (snd (table example_annotated ! 0))) = [0, 0]
   \<and> map next_delta_ticks (row_notes (snd (table example_annotated ! 0))) = [4, 4]
   \<and> map previous_delta_ticks (row_notes (snd (table example_annotated ! 1))) = [4]
   \<and> map next_delta_ticks (row_notes (snd (table example_annotated ! 1))) = [0]"
proof -
  have ne: "example_args \<noteq> []" by (simp add: example_args_def)
  from update_delta_times_gaps [OF example_add ne]
  obtain T1 where T1: "update_delta_times (sort_table example_index) = Inr T1"
    and s: "sorted_wrt (<) (ticks T1)"
    by (elim exE conjE)
  from T1 have e: "T1 = example_annotated" by (simp add: example_update)
  have t: "ticks example_annotated = [0, 4]" by (simp add: example_annotated_def ticks_def)
  have g: "map previous_delta_ticks (row_notes (snd (table example_annotated ! 0))) = [0, 0]"
    "map next_delta_ticks (row_notes (snd (table example_annotated ! 0))) = [4, 4]"
    "map previous_delta_ticks (row_notes (snd (table example_annotated ! 1))) = [4]"
    "map next_delta_ticks (row_notes (snd (table example_annotated ! 1))) = [0]"
    by (simp_all add: example_annotated_def row_notes_def set_gaps_def)
  from T1 e example_add ne t g show ?thesis by simp
qed

theorem transcript_grouping_witness:
  "add_all OrganizedNotesTable_init (make_notes example_args) = Inr example_index
   \<and> update_delta_times (sort_table example_index) = Inr example_annotated
   \<and> MusicalTranscript_init example_annotated
       = Inr \<lparr>notes_table = example_annotated,
              tracks = [(0, [SoundEvent_init [set_gaps 0 4 (Note_init 0 0 4 0 60 100),
                                              set_gaps 0 4 (Note_init 0 0 4 0 64 100)],
                             SoundEvent_init [set_gaps 4 0 (Note_init 4 0 2 0 67 100)]])]\<rparr>"
proof -
  from transcript_grouping [OF example_add example_update]
  obtain M where M: "MusicalTranscript_init example_annotated = Inr M"
    and k: "set (map fst (tracks M)) = set (channels example_annotated)"
    by (elim exE conjE)
  have "MusicalTranscript_init example_annotated
       = Inr \<lparr>notes_table = example_annotated,
              tracks = [(0, [SoundEvent_init [set_gaps 0 4 (Note_init 0 0 4 0 60 100),
                                              set_gaps 0 4 (Note_init 0 0 4 0 64 100)],
                             SoundEvent_init [set_gaps 4 0 (Note_init 4 0 2 0 67 100)]])]\<rparr>"
    by (simp add: MusicalTranscript_init_def build_def init_tracks_def append_event_def
      getitem_def setitem_def example_annotated_def)
  with M example_add example_update show ?thesis by simp
qed

theorem update_delta_times_total_witness:
  "update_delta_times example_two_channels
     = Inr (example_two_channels\<lparr>table :=
         [(0, [(0, [(60, set_gaps 0 4 (Note_init 0 0 4 0 60 100))])]),
          (4, [(0, [(67, set_gaps 4 0 (Note_init 4 0 2 0 67 100))]),
               (1, [(50, set_gaps 4 0 (Note_init 4 0 2 1 50 90))])])]\<rparr>)"
proof -
  from update_delta_times_total [of example_two_channels]
  obtain T1 where T1: "update_delta_times example_two_channels = Inr T1"
    by (elim exE conjE)
  have "update_delta_times example_two_channels
     = Inr (example_two_channels\<lparr>table :=
         [(0, [(0, [(60, set_gaps 0 4 (Note_init 0 0 4 0 60 100))])]),
          (4, [(0, [(67, set_gaps 4 0 (Note_init 4 0 2 0 67 100))]),
               (1, [(50, set_gaps 4 0 (Note_init 4 0 2 1 50 90))])])]\<rparr>)"
    by (simp add: example_two_channels_def update_delta_times_def
      first_tick_def ticks_def delta_step_def getitem_def setitem_def
      for_each_note_def set_previous_delta_def set_next_delta_def set_gaps_def Note_init_def)
  with T1 show ?thesis by simp
qed

theorem sort_table_sorted_witness:
  "distinct (ticks example_index) \<and> ticks example_index = [4, 0]
   \<and> ticks (sort_table example_index) = [0, 4]
   \<and> sort_table (sort_table example_index) = sort_table example_index"
proof -
  have d: "distinct (ticks example_index)" by (simp add: example_index_def ticks_def)
  from sort_table_sorted [OF d]
  have i: "sort_table (sort_table example_index) = sort_table example_index"
    by (elim conjE)
  have "ticks example_index = [4, 0]" "ticks (sort_table example_index) = [0, 4]"
    by (simp_all add: example_index_def ticks_def sort_table_def)
  with d i show ?thesis by simp
qed

theorem exact_reads_witness:
  "get_note example_index 0 0 64 = Inr (Note_init 0 0 4 0 64 100)
   \<and> get_note example_index 0 0 61 = Inl KeyError
   \<and> get_note example_index 0 1 64 = Inl KeyError
   \<and> get_note example_index 1 0 64 = Inl KeyError
   \<and> first_tick example_index = Inr (Some 4)
   \<and> first_tick OrganizedNotesTable_init = Inr None"
proof -
  have p: "isl (get_note example_index 0 0 61)"
    by (simp add: example_index_def get_note_def getitem_def)
  from exact_reads [of example_index 0 0 61]
  have "isl (get_note example_index 0 0 61) \<longrightarrow> get_note example_index 0 0 61 = Inl KeyError"
    by (elim conjE)
  with p have a: "get_note example_index 0 0 61 = Inl KeyError" by simp
  have "get_note example_index 0 0 64 = Inr (Note_init 0 0 4 0 64 100)"
    "get_note example_index 0 1 64 = Inl KeyError"
    "get_note example_index 1 0 64 = Inl KeyError"
    "first_tick example_index = Inr (Some 4)"
    "first_tick OrganizedNotesTable_init = Inr None"
    by (simp_all add: example_index_def get_note_def getitem_def first_tick_def
      OrganizedNotesTable_init_def)
  with a show ?thesis by simp
qed

text \<open>
  On the empty table \<open>first_tick\<close> returns \<open>None\<close>; it does not raise.
\<close>

theorem exact_reads_counterexample:
  "first_tick OrganizedNotesTable_init = Inr None \<and> \<not> isl (first_tick OrganizedNotesTable_init)"
  by (simp add: first_tick_def OrganizedNotesTable_init_def)

end
